theory Spec2Isabelle
  imports Main "HOL-Library.Sublist"
begin

section \<open>The book loader \<^verbatim>\<open>load_data.py\<close>\<close>

text \<open>
  The loader is one Python module: it connects to PostgreSQL with a bounded retry loop,
  reads \<^verbatim>\<open>/app/books.csv\<close> row by row, inserts one book per row, resolves every
  author mention to an author identifier (creating the author when the name is new),
  links book and author, and closes the cursor and the connection.

  The module is embedded as state-passing functions over a \<open>session\<close>: the tables as
  committed, the tables as the open transaction of the single connection sees them,
  the two identifier sequences, the lines printed and the sleeps made so far, and the
  state of the two handles. Every \<^verbatim>\<open>raise\<close> is a value \<open>Inl e\<close> paired with the
  session at the moment of the raise.
\<close>

subsection \<open>Text\<close>

text \<open>
  A Python \<^verbatim>\<open>str\<close> is a sequence of Unicode code points; a code point is a \<open>nat\<close>.
  \<open>str_of\<close> reads an ASCII literal as such a sequence.
\<close>

type_synonym pystr = "nat list"

definition str_of :: "string \<Rightarrow> pystr" where
  "str_of cs = map of_char cs"

text \<open>
  \<^verbatim>\<open>str.strip()\<close> without argument removes the code points that CPython counts as
  whitespace: U+0009..U+000D, U+001C..U+0020, U+0085, U+00A0, U+1680, U+2000..U+200A,
  U+2028, U+2029, U+202F, U+205F and U+3000.
\<close>

definition isspace :: "nat \<Rightarrow> bool" where
  "isspace c \<longleftrightarrow>
     (9 \<le> c \<and> c \<le> 13) \<or> (28 \<le> c \<and> c \<le> 32) \<or> c = 133 \<or> c = 160 \<or> c = 5760 \<or>
     (8192 \<le> c \<and> c \<le> 8202) \<or> c = 8232 \<or> c = 8233 \<or> c = 8239 \<or> c = 8287 \<or> c = 12288"

definition strip :: "pystr \<Rightarrow> pystr" where
  "strip s = rev (dropWhile isspace (rev (dropWhile isspace s)))"

text \<open>
  \<^verbatim>\<open>s.split(sep)\<close> for a separator of one code point: the pieces between the
  separators, in order; the empty string gives one empty piece.
\<close>

fun split_on :: "nat \<Rightarrow> pystr \<Rightarrow> pystr list" where
  "split_on sep [] = [[]]"
| "split_on sep (c # cs) =
     (if c = sep then [] # split_on sep cs
      else (case split_on sep cs of
              [] \<Rightarrow> [[c]]
            | p # ps \<Rightarrow> (c # p) # ps))"

definition comma :: nat where
  "comma = 44"

subsection \<open>Values, exceptions and what the process does to the outside\<close>

text \<open>
  \<^verbatim>\<open>csv.DictReader\<close> yields one dict per record, keyed by the header names. A value is
  a \<^verbatim>\<open>str\<close>, or \<^verbatim>\<open>None\<close> for a column that a short record does not reach. A key
  that the header does not have is absent from the dict. The keys are only ever
  compared with the eight literal column names, so they are kept as literals.
\<close>

datatype pyval = PyNone | PyStr pystr

type_synonym row = "string \<rightharpoonup> pyval"

datatype exn =
    FileNotFoundError
  | KeyError string
  | AttributeError
  | StoreError

datatype event =
    PrintConnecting
  | PrintConnected
  | PrintFailedToConnect
  | PrintRetrying int
  | Sleep int
  | PrintLoading
  | PrintInsertingBook pyval pyval
  | PrintInsertedBook nat
  | PrintGettingAuthor pystr
  | PrintAuthorExists pystr nat
  | PrintCreatedAuthor pystr nat
  | PrintError exn
  | PrintErrorWhileLoading exn
  | PrintClosing

subsection \<open>The store\<close>

text \<open>
  Modelled from the spec: the schema of the three tables, which the repository creates
  outside \<^verbatim>\<open>load_data.py\<close>. Section 6 of the specification gives
  \<^verbatim>\<open>authors(author_id PK generated, name)\<close>,
  \<^verbatim>\<open>books(book_id PK generated, isbn13, publication_year, title, rating_avg, rating_count, image_url, image_small_url)\<close>
  and \<^verbatim>\<open>book_author(book_id FK, author_id FK, unique constraint on the pair)\<close>.
  A table is the list of its rows in insertion order. A book row holds the seven
  parameters as the loader passed them.
\<close>

record book =
  isbn13 :: pyval
  publication_year :: pyval
  title :: pyval
  rating_avg :: pyval
  rating_count :: pyval
  image_url :: pyval
  image_small_url :: pyval

record tables =
  authors :: "(nat \<times> pystr) list"
  books :: "(nat \<times> book) list"
  book_author :: "(nat \<times> nat) list"

text \<open>
  What the store accepts is a parameter: an \<^verbatim>\<open>INSERT\<close> that the store rejects
  (a value that does not convert to the column type, a violated constraint) raises
  in \<^verbatim>\<open>cur.execute\<close>.
\<close>

record store =
  accepts_book :: "book \<Rightarrow> bool"
  accepts_author :: "pystr \<Rightarrow> bool"

datatype handle = Absent | Opened | Closed

text \<open>
  The module has one connection \<^verbatim>\<open>conn\<close> and one cursor \<^verbatim>\<open>cur\<close> on it. psycopg2
  opens a transaction at the first statement and keeps it until \<^verbatim>\<open>conn.commit()\<close>:
  \<open>working\<close> is the tables as that transaction sees them, \<open>committed\<close> the tables as
  they stay when the connection goes away. The generated keys come from two sequences.
\<close>

record session =
  committed :: tables
  working :: tables
  author_id_seq :: nat
  book_id_seq :: nat
  trace :: "event list"
  connection :: handle
  cursor :: handle

definition emit :: "event \<Rightarrow> session \<Rightarrow> session" where
  "emit e s = s\<lparr>trace := trace s @ [e]\<rparr>"

definition commit :: "session \<Rightarrow> session" where
  "commit s = s\<lparr>committed := working s\<rparr>"

text \<open>
  \<^verbatim>\<open>SELECT author_id FROM authors WHERE name = %s\<close> followed by \<^verbatim>\<open>cur.fetchone()\<close>:
  the identifier of the first row with exactly that name, or \<^verbatim>\<open>None\<close>.
\<close>

definition select_author_id :: "pystr \<Rightarrow> (nat \<times> pystr) list \<Rightarrow> nat option" where
  "select_author_id name rs =
     (case filter (\<lambda>r. snd r = name) rs of
        [] \<Rightarrow> None
      | r # _ \<Rightarrow> Some (fst r))"

text \<open>\<^verbatim>\<open>INSERT INTO authors (name) VALUES (%s) RETURNING author_id\<close>.\<close>

definition insert_author :: "store \<Rightarrow> pystr \<Rightarrow> session \<Rightarrow> (exn + nat) \<times> session" where
  "insert_author st name s =
     (if accepts_author st name
      then (Inr (author_id_seq s),
            s\<lparr>working := (working s)\<lparr>authors := authors (working s) @ [(author_id_seq s, name)]\<rparr>,
              author_id_seq := Suc (author_id_seq s)\<rparr>)
      else (Inl StoreError, s))"

text \<open>\<^verbatim>\<open>INSERT INTO books (...) VALUES (%s, %s, %s, %s, %s, %s, %s) RETURNING book_id\<close>.\<close>

definition insert_book :: "store \<Rightarrow> book \<Rightarrow> session \<Rightarrow> (exn + nat) \<times> session" where
  "insert_book st b s =
     (if accepts_book st b
      then (Inr (book_id_seq s),
            s\<lparr>working := (working s)\<lparr>books := books (working s) @ [(book_id_seq s, b)]\<rparr>,
              book_id_seq := Suc (book_id_seq s)\<rparr>)
      else (Inl StoreError, s))"

text \<open>
  \<^verbatim>\<open>INSERT INTO book_author (book_id, author_id) VALUES (%s, %s)
  ON CONFLICT (book_id, author_id) DO NOTHING\<close>.
\<close>

definition insert_book_author :: "nat \<Rightarrow> nat \<Rightarrow> session \<Rightarrow> session" where
  "insert_book_author book_id author_id s =
     (if (book_id, author_id) \<in> set (book_author (working s)) then s
      else s\<lparr>working := (working s)\<lparr>book_author := book_author (working s) @ [(book_id, author_id)]\<rparr>\<rparr>)"

subsection \<open>\<^verbatim>\<open>connect_to_database\<close>\<close>

text \<open>
  \<open>up attempt\<close> tells whether \<^verbatim>\<open>psycopg2.connect\<close> succeeds at that attempt. The
  function returns a connection, or leaves the process through \<^verbatim>\<open>exit(1)\<close>, or falls
  off the end of the \<^verbatim>\<open>for\<close> loop and returns \<^verbatim>\<open>None\<close>.
\<close>

datatype connect_result = Connection | SystemExit int | ReturnsNone

fun connect_attempts ::
  "(int \<Rightarrow> bool) \<Rightarrow> int \<Rightarrow> int \<Rightarrow> int list \<Rightarrow> event list \<Rightarrow> connect_result \<times> event list" where
  "connect_attempts up retries delay [] tr = (ReturnsNone, tr)"
| "connect_attempts up retries delay (attempt # rest) tr =
     (if up attempt then (Connection, tr @ [PrintConnected])
      else if attempt < retries - 1
        then connect_attempts up retries delay rest (tr @ [PrintFailedToConnect, PrintRetrying delay, Sleep delay])
        else (SystemExit 1, tr @ [PrintFailedToConnect]))"

definition connect_to_database :: "(int \<Rightarrow> bool) \<Rightarrow> int \<Rightarrow> int \<Rightarrow> connect_result \<times> event list" where
  "connect_to_database up retries delay =
     connect_attempts up retries delay [0..retries - 1] [PrintConnecting]"

subsection \<open>\<^verbatim>\<open>get_or_create_author\<close>\<close>

definition get_or_create_author :: "store \<Rightarrow> pystr \<Rightarrow> session \<Rightarrow> (exn + nat) \<times> session" where
  "get_or_create_author st name s =
     (let s1 = emit (PrintGettingAuthor name) s in
      case select_author_id name (authors (working s1)) of
        Some author_id \<Rightarrow> (Inr author_id, emit (PrintAuthorExists name author_id) s1)
      | None \<Rightarrow>
          (case insert_author st name s1 of
             (Inl e, s2) \<Rightarrow> (Inl e, s2)
           | (Inr new_author_id, s2) \<Rightarrow>
               (Inr new_author_id, emit (PrintCreatedAuthor name new_author_id) (commit s2))))"

subsection \<open>The ingestion loop\<close>

definition getitem :: "row \<Rightarrow> string \<Rightarrow> exn + pyval" where
  "getitem r k = (case r k of None \<Rightarrow> Inl (KeyError k) | Some v \<Rightarrow> Inr v)"

text \<open>
  The parameter tuple of the book insert; Python evaluates its seven subscripts from
  left to right, so the first absent key is the one reported.
\<close>

definition book_params :: "row \<Rightarrow> exn + book" where
  "book_params r =
     (case getitem r ''isbn13'' of Inl e \<Rightarrow> Inl e | Inr v1 \<Rightarrow>
      case getitem r ''original_publication_year'' of Inl e \<Rightarrow> Inl e | Inr v2 \<Rightarrow>
      case getitem r ''title'' of Inl e \<Rightarrow> Inl e | Inr v3 \<Rightarrow>
      case getitem r ''average_rating'' of Inl e \<Rightarrow> Inl e | Inr v4 \<Rightarrow>
      case getitem r ''ratings_count'' of Inl e \<Rightarrow> Inl e | Inr v5 \<Rightarrow>
      case getitem r ''image_url'' of Inl e \<Rightarrow> Inl e | Inr v6 \<Rightarrow>
      case getitem r ''small_image_url'' of Inl e \<Rightarrow> Inl e | Inr v7 \<Rightarrow>
        Inr \<lparr>isbn13 = v1, publication_year = v2, title = v3, rating_avg = v4,
             rating_count = v5, image_url = v6, image_small_url = v7\<rparr>)"

text \<open>The list comprehension \<^verbatim>\<open>[author.strip() for author in row['authors'].split(',')]\<close>.\<close>

definition author_names :: "pystr \<Rightarrow> pystr list" where
  "author_names field = map strip (split_on comma field)"

text \<open>The inner loop \<^verbatim>\<open>for author_name in authors\<close>.\<close>

fun link_authors :: "store \<Rightarrow> nat \<Rightarrow> pystr list \<Rightarrow> session \<Rightarrow> (exn + unit) \<times> session" where
  "link_authors st book_id [] s = (Inr (), s)"
| "link_authors st book_id (author_name # rest) s =
     (case get_or_create_author st author_name s of
        (Inl e, s1) \<Rightarrow> (Inl e, s1)
      | (Inr author_id, s1) \<Rightarrow> link_authors st book_id rest (insert_book_author book_id author_id s1))"

text \<open>The body of \<^verbatim>\<open>for row in reader\<close>.\<close>

definition process_row :: "store \<Rightarrow> row \<Rightarrow> session \<Rightarrow> (exn + unit) \<times> session" where
  "process_row st r s =
     (case getitem r ''title'' of Inl e \<Rightarrow> (Inl e, s) | Inr t \<Rightarrow>
      case getitem r ''isbn13'' of Inl e \<Rightarrow> (Inl e, s) | Inr i \<Rightarrow>
      let s1 = emit (PrintInsertingBook t i) s in
      case book_params r of Inl e \<Rightarrow> (Inl e, s1) | Inr b \<Rightarrow>
      case insert_book st b s1 of (Inl e, s2) \<Rightarrow> (Inl e, s2) | (Inr book_id, s2) \<Rightarrow>
      let s3 = emit (PrintInsertedBook book_id) s2 in
      case getitem r ''authors'' of Inl e \<Rightarrow> (Inl e, s3) | Inr a \<Rightarrow>
      case a of PyNone \<Rightarrow> (Inl AttributeError, s3) | PyStr field \<Rightarrow>
      case link_authors st book_id (author_names field) s3 of
        (Inl e, s4) \<Rightarrow> (Inl e, s4)
      | (Inr u, s4) \<Rightarrow> (Inr (), commit s4))"

fun ingest_rows :: "store \<Rightarrow> row list \<Rightarrow> session \<Rightarrow> (exn + unit) \<times> session" where
  "ingest_rows st [] s = (Inr (), s)"
| "ingest_rows st (r # rest) s =
     (case process_row st r s of
        (Inl e, s1) \<Rightarrow> (Inl e, s1)
      | (Inr u, s1) \<Rightarrow> ingest_rows st rest s1)"

text \<open>
  The input file: \<^verbatim>\<open>open\<close> raises \<^verbatim>\<open>FileNotFoundError\<close> when the path does not
  exist; otherwise the reader yields the records of the file. A file that exists and
  cannot be opened, decoded or parsed is not among the inputs considered here.
\<close>

datatype csv_file = NoSuchFile | CsvFile "row list"

text \<open>The \<^verbatim>\<open>try\<close> statement with its two handlers.\<close>

definition handler :: "exn \<Rightarrow> session \<Rightarrow> session" where
  "handler e s =
     (case e of
        FileNotFoundError \<Rightarrow> emit (PrintError e) s
      | _ \<Rightarrow> emit (PrintErrorWhileLoading e) s)"

definition load_csv :: "store \<Rightarrow> csv_file \<Rightarrow> session \<Rightarrow> session" where
  "load_csv st f s =
     (let s0 = emit PrintLoading s in
      case f of
        NoSuchFile \<Rightarrow> handler FileNotFoundError s0
      | CsvFile rows \<Rightarrow>
          (case ingest_rows st rows s0 of
             (Inl e, s1) \<Rightarrow> handler e s1
           | (Inr u, s1) \<Rightarrow> s1))"

text \<open>
  \<^verbatim>\<open>cur.close()\<close> and \<^verbatim>\<open>conn.close()\<close>: closing the connection drops what the open
  transaction has not committed.
\<close>

definition teardown :: "session \<Rightarrow> session" where
  "teardown s = (emit PrintClosing s)\<lparr>cursor := Closed, connection := Closed, working := committed s\<rparr>"

subsection \<open>The module, top to bottom\<close>

record outcome =
  exit_status :: int
  final :: session

definition boot :: "tables \<Rightarrow> nat \<Rightarrow> nat \<Rightarrow> event list \<Rightarrow> session" where
  "boot db a b tr =
     \<lparr>committed = db, working = db, author_id_seq = a, book_id_seq = b, trace = tr,
      connection = Absent, cursor = Absent\<rparr>"

text \<open>
  \<open>main\<close> runs the module on a database \<open>db\<close> with its two sequences at \<open>a\<close> and
  \<open>b\<close>. The call \<^verbatim>\<open>connect_to_database()\<close> takes the defaults \<^verbatim>\<open>retries=5, delay=5\<close>.
  When it returns \<^verbatim>\<open>None\<close>, \<^verbatim>\<open>conn.cursor()\<close> raises outside every handler and the
  interpreter ends with status 1.
\<close>

definition main :: "(int \<Rightarrow> bool) \<Rightarrow> store \<Rightarrow> csv_file \<Rightarrow> tables \<Rightarrow> nat \<Rightarrow> nat \<Rightarrow> outcome" where
  "main up st f db a b =
     (case connect_to_database up 5 5 of
        (SystemExit n, tr) \<Rightarrow> \<lparr>exit_status = n, final = boot db a b tr\<rparr>
      | (ReturnsNone, tr) \<Rightarrow> \<lparr>exit_status = 1, final = boot db a b tr\<rparr>
      | (Connection, tr) \<Rightarrow>
          \<lparr>exit_status = 0,
           final = teardown (load_csv st f ((boot db a b tr)\<lparr>connection := Opened, cursor := Opened\<rparr>))\<rparr>)"

subsection \<open>Notions used in the statements\<close>

text \<open>
  The tables only grow, and they grow at the end: \<open>extends t t'\<close> says that every
  table of \<open>t'\<close> starts with the rows of the same table of \<open>t\<close>.
\<close>

definition extends :: "tables \<Rightarrow> tables \<Rightarrow> bool" where
  "extends t t' \<longleftrightarrow>
     prefix (authors t) (authors t') \<and> prefix (books t) (books t') \<and>
     prefix (book_author t) (book_author t')"

text \<open>
  \<open>grows s s'\<close> relates a session to a later one: nothing committed or pending is
  lost, what is committed is part of what the transaction sees, the trace is
  continued, the sequences do not go back and the handles are untouched.
\<close>

definition grows :: "session \<Rightarrow> session \<Rightarrow> bool" where
  "grows s s' \<longleftrightarrow>
     extends (committed s) (committed s') \<and> extends (working s) (working s') \<and>
     extends (committed s') (working s') \<and> prefix (trace s) (trace s') \<and>
     author_id_seq s \<le> author_id_seq s' \<and> book_id_seq s \<le> book_id_seq s' \<and>
     connection s' = connection s \<and> cursor s' = cursor s"

text \<open>
  What the schema guarantees about keys: \<open>author_id\<close> is a primary key, the pair
  \<open>(book_id, author_id)\<close> is unique in \<open>book_author\<close>, and a generated key is new, that
  is, both sequences are ahead of every key in use (for \<open>book_author\<close>, whose
  \<open>book_id\<close> refers to \<open>books\<close>, ahead of every book it mentions).
\<close>

definition keys_ok :: "session \<Rightarrow> bool" where
  "keys_ok s \<longleftrightarrow>
     distinct (map fst (authors (working s))) \<and>
     (\<forall>r \<in> set (authors (working s)). fst r < author_id_seq s) \<and>
     distinct (book_author (working s)) \<and>
     (\<forall>p \<in> set (book_author (working s)). fst p < book_id_seq s)"

text \<open>The names that \<^verbatim>\<open>get_or_create_author\<close> was called with, read off the trace.\<close>

fun resolutions :: "event list \<Rightarrow> pystr list" where
  "resolutions [] = []"
| "resolutions (PrintGettingAuthor n # tr) = n # resolutions tr"
| "resolutions (_ # tr) = resolutions tr"

text \<open>The author mentions of a row: the trimmed pieces of its \<open>authors\<close> field.\<close>

definition mentions :: "row \<Rightarrow> pystr list" where
  "mentions r = (case r ''authors'' of Some (PyStr field) \<Rightarrow> author_names field | _ \<Rightarrow> [])"

text \<open>
  The session in the middle of a row, after the book insert and its two prints and
  before the \<open>authors\<close> field is read.
\<close>

definition book_pending :: "book \<Rightarrow> session \<Rightarrow> session" where
  "book_pending bk s =
     emit (PrintInsertedBook (book_id_seq s))
       ((emit (PrintInsertingBook (title bk) (isbn13 bk)) s)
          \<lparr>working := (working s)\<lparr>books := books (working s) @ [(book_id_seq s, bk)]\<rparr>,
            book_id_seq := Suc (book_id_seq s)\<rparr>)"

text \<open>
  A row that can be processed whatever the tables hold: the seven book columns and the
  \<open>authors\<close> column are there, \<open>authors\<close> is a string, and the store takes the book
  and each of the names.
\<close>

definition well_formed :: "store \<Rightarrow> row \<Rightarrow> bool" where
  "well_formed st r \<longleftrightarrow>
     (case book_params r of Inl e \<Rightarrow> False | Inr bk \<Rightarrow> accepts_book st bk) \<and>
     (case r ''authors'' of
        Some (PyStr field) \<Rightarrow> list_all (accepts_author st) (author_names field)
      | _ \<Rightarrow> False)"

subsection \<open>Concrete inputs\<close>

definition always_up :: "int \<Rightarrow> bool" where
  "always_up attempt \<longleftrightarrow> True"

definition up_at_fifth :: "int \<Rightarrow> bool" where
  "up_at_fifth attempt \<longleftrightarrow> attempt = 4"

definition never_up :: "int \<Rightarrow> bool" where
  "never_up attempt \<longleftrightarrow> False"

text \<open>A store that takes every book and every author name of at most ten code points.\<close>

definition small_store :: store where
  "small_store = \<lparr>accepts_book = (\<lambda>b. True), accepts_author = (\<lambda>n. length n \<le> 10)\<rparr>"

definition empty_db :: tables where
  "empty_db = \<lparr>authors = [], books = [], book_author = []\<rparr>"

definition sample_book :: book where
  "sample_book =
     \<lparr>isbn13 = PyStr (str_of ''9780439023480''), publication_year = PyStr (str_of ''2008''),
      title = PyStr (str_of ''The Hunger Games''), rating_avg = PyStr (str_of ''4.34''),
      rating_count = PyStr (str_of ''4780653''), image_url = PyStr (str_of ''m.jpg''),
      image_small_url = PyStr (str_of ''s.jpg'')\<rparr>"

definition sample_row :: "string \<Rightarrow> row" where
  "sample_row field =
     map_of [(''isbn13'', isbn13 sample_book),
             (''original_publication_year'', publication_year sample_book),
             (''title'', title sample_book),
             (''average_rating'', rating_avg sample_book),
             (''ratings_count'', rating_count sample_book),
             (''image_url'', image_url sample_book),
             (''small_image_url'', image_small_url sample_book),
             (''authors'', PyStr (str_of field))]"

definition fresh_session :: session where
  "fresh_session =
     emit PrintLoading ((boot empty_db 1 1 [PrintConnecting, PrintConnected])\<lparr>connection := Opened, cursor := Opened\<rparr>)"

text \<open>A short record: the \<open>authors\<close> column is not reached, so its value is \<^verbatim>\<open>None\<close>.\<close>

definition short_row :: row where
  "short_row = (sample_row ''Cy'')(''authors'' \<mapsto> PyNone)"

definition two_rows :: "row list" where
  "two_rows = [sample_row ''Ann, Bob'', sample_row ''Bob , Bob,Cy'']"

definition db_after_one_run :: tables where
  "db_after_one_run =
     \<lparr>authors = [(1, str_of ''Ann''), (2, str_of ''Bob''), (3, str_of ''Cy'')],
      books = [(1, sample_book), (2, sample_book)],
      book_author = [(1, 1), (1, 2), (2, 2), (2, 3)]\<rparr>"

text \<open>A row whose second author name is longer than \<open>small_store\<close> takes.\<close>

definition long_name_row :: row where
  "long_name_row = sample_row ''Ann, Bartholomew Roberts''"

text \<open>A database that already holds one author, and a session opened on it.\<close>

definition ann_db :: tables where
  "ann_db = \<lparr>authors = [(1, str_of ''Ann'')], books = [], book_author = []\<rparr>"

definition ann_session :: session where
  "ann_session =
     emit PrintLoading ((boot ann_db 2 1 [PrintConnecting, PrintConnected])\<lparr>connection := Opened, cursor := Opened\<rparr>)"

section \<open>Properties\<close>

subsection \<open>Unfolding a run on a concrete input\<close>

lemmas run_defs =
  main_def connect_to_database_def upto_rec1 always_up_def load_csv_def process_row_def
  sample_row_def short_row_def getitem_def book_params_def small_store_def insert_book_def
  author_names_def strip_def isspace_def comma_def str_of_def get_or_create_author_def
  select_author_id_def insert_author_def insert_book_author_def emit_def commit_def
  teardown_def handler_def boot_def empty_db_def sample_book_def fresh_session_def
  book_pending_def keys_ok_def mentions_def two_rows_def db_after_one_run_def
  long_name_row_def well_formed_def ann_db_def ann_session_def

subsection \<open>Fields after the basic steps\<close>

lemma emit_fields [simp]:
  "committed (emit e s) = committed s"
  "working (emit e s) = working s"
  "author_id_seq (emit e s) = author_id_seq s"
  "book_id_seq (emit e s) = book_id_seq s"
  "trace (emit e s) = trace s @ [e]"
  "connection (emit e s) = connection s"
  "cursor (emit e s) = cursor s"
  by (simp_all add: emit_def)

lemma commit_fields [simp]:
  "committed (commit s) = working s"
  "working (commit s) = working s"
  "author_id_seq (commit s) = author_id_seq s"
  "book_id_seq (commit s) = book_id_seq s"
  "trace (commit s) = trace s"
  "connection (commit s) = connection s"
  "cursor (commit s) = cursor s"
  by (simp_all add: commit_def)

lemma select_author_id_None: "select_author_id name rs = None \<longleftrightarrow> name \<notin> snd ` set rs"
proof (cases "filter (\<lambda>r. snd r = name) rs")
  case Nil
  then show ?thesis
    by (auto simp: select_author_id_def filter_empty_conv)
next
  case (Cons r rest)
  then have "r \<in> set (filter (\<lambda>r. snd r = name) rs)" by simp
  then have "name \<in> snd ` set rs" by force
  with Cons show ?thesis by (simp add: select_author_id_def)
qed

lemma select_author_id_mem: "select_author_id name rs = Some a \<Longrightarrow> (a, name) \<in> set rs"
proof -
  assume h: "select_author_id name rs = Some a"
  then obtain r rest where f: "filter (\<lambda>r. snd r = name) rs = r # rest" and a: "a = fst r"
    by (auto simp: select_author_id_def split: list.splits)
  from f have "r \<in> set (filter (\<lambda>r. snd r = name) rs)" by simp
  then have "r \<in> set rs" "snd r = name" by auto
  with a show ?thesis by (cases r) auto
qed

lemma select_author_id_append:
  "select_author_id name (rs @ ext) =
     (case select_author_id name rs of Some a \<Rightarrow> Some a | None \<Rightarrow> select_author_id name ext)"
  by (simp add: select_author_id_def split: list.splits)

lemma select_author_id_single:
  "select_author_id name [(a, n)] = (if n = name then Some a else None)"
  by (simp add: select_author_id_def)

lemma select_author_id_inj:
  assumes "distinct (map fst rs)"
      and "select_author_id n rs = Some a" and "select_author_id m rs = Some a"
  shows "n = m"
proof -
  from assms have "(a, n) \<in> set rs" "(a, m) \<in> set rs"
    by (auto dest: select_author_id_mem)
  with assms(1) show ?thesis
    by (meson eq_key_imp_eq_value)
qed

lemma author_found:
  "select_author_id name (authors (working s)) = Some a \<Longrightarrow>
   get_or_create_author st name s =
     (Inr a, emit (PrintAuthorExists name a) (emit (PrintGettingAuthor name) s))"
  by (simp add: get_or_create_author_def)

lemma author_created:
  "select_author_id name (authors (working s)) = None \<Longrightarrow> accepts_author st name \<Longrightarrow>
   get_or_create_author st name s =
     (Inr (author_id_seq s),
      emit (PrintCreatedAuthor name (author_id_seq s))
        (commit ((emit (PrintGettingAuthor name) s)
           \<lparr>working := (working s)\<lparr>authors := authors (working s) @ [(author_id_seq s, name)]\<rparr>,
             author_id_seq := Suc (author_id_seq s)\<rparr>)))"
  by (simp add: get_or_create_author_def insert_author_def)

lemma author_rejected:
  "select_author_id name (authors (working s)) = None \<Longrightarrow> \<not> accepts_author st name \<Longrightarrow>
   get_or_create_author st name s = (Inl StoreError, emit (PrintGettingAuthor name) s)"
  by (simp add: get_or_create_author_def insert_author_def)

lemma author_cases:
  assumes "get_or_create_author st name s = (res, s1)"
  obtains
    (found) a where "select_author_id name (authors (working s)) = Some a" "res = Inr a"
      "s1 = emit (PrintAuthorExists name a) (emit (PrintGettingAuthor name) s)"
  | (created) "select_author_id name (authors (working s)) = None" "accepts_author st name"
      "res = Inr (author_id_seq s)"
      "s1 = emit (PrintCreatedAuthor name (author_id_seq s))
        (commit ((emit (PrintGettingAuthor name) s)
           \<lparr>working := (working s)\<lparr>authors := authors (working s) @ [(author_id_seq s, name)]\<rparr>,
             author_id_seq := Suc (author_id_seq s)\<rparr>))"
  | (rejected) "select_author_id name (authors (working s)) = None" "\<not> accepts_author st name"
      "res = Inl StoreError" "s1 = emit (PrintGettingAuthor name) s"
proof (cases "select_author_id name (authors (working s))")
  case (Some a)
  with assms author_found[OF Some, of st] show ?thesis by (intro found[of a]) auto
next
  case None
  show ?thesis
  proof (cases "accepts_author st name")
    case True
    with assms author_created[OF None True] None show ?thesis by (intro created) auto
  next
    case False
    with assms author_rejected[OF None False] None show ?thesis by (intro rejected) auto
  qed
qed

lemma extends_refl [simp]: "extends t t"
  by (simp add: extends_def)

lemma extends_trans: "extends t1 t2 \<Longrightarrow> extends t2 t3 \<Longrightarrow> extends t1 t3"
  unfolding extends_def by (meson prefix_order.trans)

lemma grows_refl: "extends (committed s) (working s) \<Longrightarrow> grows s s"
  by (simp add: grows_def)

lemma grows_trans: "grows s1 s2 \<Longrightarrow> grows s2 s3 \<Longrightarrow> grows s1 s3"
  unfolding grows_def by (auto intro: extends_trans prefix_order.trans)

lemma grows_inv: "grows s s' \<Longrightarrow> extends (committed s') (working s')"
  by (simp add: grows_def)

lemma grows_emit: "extends (committed s) (working s) \<Longrightarrow> grows s (emit e s)"
  by (simp add: grows_def)

lemma grows_commit: "extends (committed s) (working s) \<Longrightarrow> grows s (commit s)"
  by (simp add: grows_def)

lemma grows_insert_book_author:
  "extends (committed s) (working s) \<Longrightarrow> grows s (insert_book_author b a s)"
  by (auto simp: grows_def insert_book_author_def extends_def intro: prefix_order.trans)

lemma grows_insert_author:
  "extends (committed s) (working s) \<Longrightarrow> insert_author st name s = (res, s') \<Longrightarrow> grows s s'"
  by (auto simp: grows_def insert_author_def extends_def split: if_splits intro: prefix_order.trans)

lemma grows_insert_book:
  "extends (committed s) (working s) \<Longrightarrow> insert_book st bk s = (res, s') \<Longrightarrow> grows s s'"
  by (auto simp: grows_def insert_book_def extends_def split: if_splits intro: prefix_order.trans)

lemma grows_author:
  assumes "extends (committed s) (working s)" and "get_or_create_author st name s = (res, s')"
  shows "grows s s'"
  using assms(2)
proof (cases rule: author_cases)
  case (found a)
  with assms(1) show ?thesis by (simp add: grows_def)
next
  case created
  with assms(1) show ?thesis
    by (auto simp: grows_def extends_def intro: prefix_order.trans)
next
  case rejected
  with assms(1) show ?thesis by (simp add: grows_def)
qed

lemma grows_link_authors:
  "extends (committed s) (working s) \<Longrightarrow> link_authors st b names s = (res, s') \<Longrightarrow> grows s s'"
proof (induction names arbitrary: s)
  case Nil
  then show ?case by (simp add: grows_refl)
next
  case (Cons n names)
  obtain r1 s1 where g: "get_or_create_author st n s = (r1, s1)" by force
  with Cons.prems(1) have g1: "grows s s1" by (rule grows_author)
  show ?case
  proof (cases r1)
    case (Inl e)
    with g Cons.prems(2) g1 show ?thesis by simp
  next
    case (Inr a)
    let ?s2 = "insert_book_author b a s1"
    from g1 have "grows s1 ?s2" by (intro grows_insert_book_author grows_inv)
    with g1 have g2: "grows s ?s2" by (rule grows_trans)
    from Inr g Cons.prems(2) have "link_authors st b names ?s2 = (res, s')" by simp
    with g2 have "grows ?s2 s'" by (intro Cons.IH grows_inv)
    with g2 show ?thesis by (rule grows_trans)
  qed
qed

lemma grows_process_row:
  assumes j: "extends (committed s) (working s)" and p: "process_row st r s = (res, s')"
  shows "grows s s'"
proof -
  have e: "\<And>ev. grows s (emit ev s)" using j by (rule grows_emit)
  show ?thesis
  proof (cases "getitem r ''title''")
    case (Inl e1)
    with p j show ?thesis by (simp add: process_row_def grows_refl)
  next
    case t: (Inr t)
    show ?thesis
    proof (cases "getitem r ''isbn13''")
      case (Inl e2)
      with p j t show ?thesis by (simp add: process_row_def grows_refl)
    next
      case i: (Inr i)
      let ?s1 = "emit (PrintInsertingBook t i) s"
      have g1: "grows s ?s1" by (rule e)
      show ?thesis
      proof (cases "book_params r")
        case (Inl e3)
        with p t i g1 show ?thesis by (simp add: process_row_def)
      next
        case bk: (Inr bk)
        obtain r2 s2 where ib: "insert_book st bk ?s1 = (r2, s2)" by force
        with g1 have "grows ?s1 s2" by (intro grows_insert_book[OF _ ib] grows_inv)
        with g1 have g2: "grows s s2" by (rule grows_trans)
        show ?thesis
        proof (cases r2)
          case (Inl e4)
          with p t i bk ib g2 show ?thesis by (simp add: process_row_def)
        next
          case bid: (Inr book_id)
          let ?s3 = "emit (PrintInsertedBook book_id) s2"
          from g2 have "grows s2 ?s3" by (intro grows_emit grows_inv)
          with g2 have g3: "grows s ?s3" by (rule grows_trans)
          show ?thesis
          proof (cases "getitem r ''authors''")
            case (Inl e5)
            with p t i bk ib bid g3 show ?thesis by (simp add: process_row_def)
          next
            case a: (Inr a)
            show ?thesis
            proof (cases a)
              case PyNone
              with p t i bk ib bid a g3 show ?thesis by (simp add: process_row_def)
            next
              case (PyStr field)
              obtain r4 s4 where l: "link_authors st book_id (author_names field) ?s3 = (r4, s4)"
                by force
              with g3 have "grows ?s3 s4" by (intro grows_link_authors[OF _ l] grows_inv)
              with g3 have g4: "grows s s4" by (rule grows_trans)
              then have "grows s4 (commit s4)" by (intro grows_commit grows_inv)
              with g4 have g5: "grows s (commit s4)" by (rule grows_trans)
              from p t i bk ib bid a PyStr l g4 g5 show ?thesis
                by (cases r4) (auto simp: process_row_def)
            qed
          qed
        qed
      qed
    qed
  qed
qed

lemma grows_ingest_rows:
  "extends (committed s) (working s) \<Longrightarrow> ingest_rows st rows s = (res, s') \<Longrightarrow> grows s s'"
proof (induction rows arbitrary: s)
  case Nil
  then show ?case by (simp add: grows_refl)
next
  case (Cons r rows)
  obtain r1 s1 where p: "process_row st r s = (r1, s1)" by force
  with Cons.prems(1) have g1: "grows s s1" by (rule grows_process_row)
  show ?case
  proof (cases r1)
    case (Inl e)
    with p Cons.prems(2) g1 show ?thesis by simp
  next
    case (Inr u)
    with p Cons.prems(2) have "ingest_rows st rows s1 = (res, s')" by simp
    with g1 have "grows s1 s'" by (intro Cons.IH grows_inv)
    with g1 show ?thesis by (rule grows_trans)
  qed
qed

lemma resolutions_append: "resolutions (tr @ tr') = resolutions tr @ resolutions tr'"
  by (induction tr rule: resolutions.induct) simp_all

lemma select_author_id_prefix:
  "prefix rs rs' \<Longrightarrow> select_author_id n rs = Some a \<Longrightarrow> select_author_id n rs' = Some a"
  by (auto simp: prefix_def select_author_id_append)

lemma author_step:
  assumes g: "get_or_create_author st n s = (Inr a, s1)" and k: "keys_ok s"
  shows "keys_ok s1 \<and> select_author_id n (authors (working s1)) = Some a \<and>
    prefix (authors (working s)) (authors (working s1)) \<and>
    book_author (working s1) = book_author (working s) \<and>
    books (working s1) = books (working s) \<and> book_id_seq s1 = book_id_seq s \<and>
    resolutions (trace s1) = resolutions (trace s) @ [n]"
  using g
proof (cases rule: author_cases)
  case (found a')
  with k show ?thesis
    by (simp add: keys_ok_def resolutions_append)
next
  case created
  from k have "\<forall>r \<in> set (authors (working s)). fst r \<noteq> author_id_seq s"
    by (auto simp: keys_ok_def)
  then have "author_id_seq s \<notin> fst ` set (authors (working s))" by auto
  with created k show ?thesis
    by (auto simp: keys_ok_def resolutions_append select_author_id_append select_author_id_single
          less_Suc_eq)
next
  case rejected
  then show ?thesis by simp
qed

lemma assoc_step:
  assumes k: "keys_ok s" and b: "b < book_id_seq s"
  shows "keys_ok (insert_book_author b a s)"
    and "set (book_author (working (insert_book_author b a s))) =
           insert (b, a) (set (book_author (working s)))"
    and "prefix (book_author (working s)) (book_author (working (insert_book_author b a s)))"
    and "authors (working (insert_book_author b a s)) = authors (working s)"
    and "books (working (insert_book_author b a s)) = books (working s)"
    and "book_id_seq (insert_book_author b a s) = book_id_seq s"
    and "author_id_seq (insert_book_author b a s) = author_id_seq s"
    and "trace (insert_book_author b a s) = trace s"
  using k b by (auto simp: keys_ok_def insert_book_author_def)

lemma link_authors_keys:
  assumes "link_authors st b names s = (Inr u, s')" and "keys_ok s" and "b < book_id_seq s"
  shows "keys_ok s' \<and>
    prefix (authors (working s)) (authors (working s')) \<and>
    prefix (book_author (working s)) (book_author (working s')) \<and>
    set (book_author (working s')) =
      set (book_author (working s)) \<union>
      {(b, a) | a. \<exists>n \<in> set names. select_author_id n (authors (working s')) = Some a} \<and>
    (\<forall>n \<in> set names. select_author_id n (authors (working s')) \<noteq> None) \<and>
    books (working s') = books (working s) \<and> book_id_seq s' = book_id_seq s \<and>
    resolutions (trace s') = resolutions (trace s) @ names"
  using assms
proof (induction names arbitrary: s)
  case Nil
  then show ?case by simp
next
  case (Cons n names)
  obtain r1 s1 where g: "get_or_create_author st n s = (r1, s1)" by force
  with Cons.prems(1) obtain a where r1: "r1 = Inr a" by (cases r1) auto
  let ?s2 = "insert_book_author b a s1"
  from g r1 Cons.prems(1) have l: "link_authors st b names ?s2 = (Inr u, s')" by simp
  have st1: "keys_ok s1" "select_author_id n (authors (working s1)) = Some a"
    "prefix (authors (working s)) (authors (working s1))"
    "book_author (working s1) = book_author (working s)"
    "books (working s1) = books (working s)" "book_id_seq s1 = book_id_seq s"
    "resolutions (trace s1) = resolutions (trace s) @ [n]"
    using author_step[OF g[unfolded r1] Cons.prems(2)] by simp_all
  from st1(6) Cons.prems(3) have b1: "b < book_id_seq s1" by simp
  note st2 = assoc_step[OF st1(1) b1, of a]
  from st2(6) b1 have b2: "b < book_id_seq ?s2" by simp
  note ih = Cons.IH[OF l st2(1) b2]
  from ih have pa: "prefix (authors (working ?s2)) (authors (working s'))" by simp
  from st1(2) st2(4) have "select_author_id n (authors (working ?s2)) = Some a" by simp
  with pa have sel: "select_author_id n (authors (working s')) = Some a"
    by (rule select_author_id_prefix)
  have "keys_ok s'" using ih by simp
  moreover have "prefix (authors (working s)) (authors (working s'))"
    using st1(3) st2(4) pa by (metis prefix_order.trans)
  moreover have "prefix (book_author (working s)) (book_author (working s'))"
    using st1(4) st2(3) ih by (metis prefix_order.trans)
  moreover have "set (book_author (working s')) =
      set (book_author (working s)) \<union>
      {(b, a) | a. \<exists>n \<in> set (n # names). select_author_id n (authors (working s')) = Some a}"
  proof -
    from ih have "set (book_author (working s')) =
      set (book_author (working ?s2)) \<union>
      {(b, a) | a. \<exists>n \<in> set names. select_author_id n (authors (working s')) = Some a}"
      by simp
    with st2(2) st1(4) sel show ?thesis by auto
  qed
  moreover have "\<forall>m \<in> set (n # names). select_author_id m (authors (working s')) \<noteq> None"
    using ih sel by simp
  moreover have "books (working s') = books (working s)"
    using ih st2(5) st1(5) by simp
  moreover have "book_id_seq s' = book_id_seq s"
    using ih st2(6) st1(6) by simp
  moreover have "resolutions (trace s') = resolutions (trace s) @ n # names"
    using ih st2(8) st1(7) by simp
  ultimately show ?case by blast
qed

lemma link_authors_count:
  assumes l: "link_authors st b names s = (Inr u, s')" and k: "keys_ok s" and b: "b < book_id_seq s"
      and fresh: "\<forall>p \<in> set (book_author (working s)). fst p \<noteq> b"
  shows "length (book_author (working s')) = length (book_author (working s)) + card (set names)"
proof -
  note lk = link_authors_keys[OF l k b]
  let ?A = "authors (working s')"
  let ?X = "{(b, a) | a. \<exists>n \<in> set names. select_author_id n ?A = Some a}"
  let ?f = "\<lambda>n. (b, the (select_author_id n ?A))"
  have d': "distinct (book_author (working s'))" and da: "distinct (map fst ?A)"
    using lk by (simp_all add: keys_ok_def)
  have d: "distinct (book_author (working s))" using k by (simp add: keys_ok_def)
  have some: "\<forall>n \<in> set names. \<exists>a. select_author_id n ?A = Some a" using lk by auto
  have X: "?X = ?f ` set names"
  proof (intro set_eqI iffI)
    fix p assume "p \<in> ?X"
    then obtain a n where "p = (b, a)" "n \<in> set names" "select_author_id n ?A = Some a" by auto
    then show "p \<in> ?f ` set names" by force
  next
    fix p assume "p \<in> ?f ` set names"
    then obtain n where n: "n \<in> set names" "p = ?f n" by auto
    with some obtain a where "select_author_id n ?A = Some a" by auto
    with n show "p \<in> ?X" by auto
  qed
  have inj: "inj_on ?f (set names)"
  proof (rule inj_onI)
    fix n m assume nm: "n \<in> set names" "m \<in> set names" "?f n = ?f m"
    with some obtain a a' where "select_author_id n ?A = Some a" "select_author_id m ?A = Some a'"
      by blast
    with nm(3) da show "n = m" by (auto dest: select_author_id_inj)
  qed
  have disj: "set (book_author (working s)) \<inter> ?X = {}" using fresh by auto
  have "length (book_author (working s')) = card (set (book_author (working s')))"
    using d' by (simp add: distinct_card)
  also have "\<dots> = card (set (book_author (working s)) \<union> ?X)" using lk by simp
  also have "\<dots> = card (set (book_author (working s))) + card ?X"
    using disj X by (intro card_Un_disjoint) auto
  also have "card ?X = card (set names)" using X inj by (simp add: card_image)
  also have "card (set (book_author (working s))) = length (book_author (working s))"
    using d by (simp add: distinct_card)
  finally show ?thesis .
qed

lemma book_pending_fields [simp]:
  "committed (book_pending bk s) = committed s"
  "authors (working (book_pending bk s)) = authors (working s)"
  "books (working (book_pending bk s)) = books (working s) @ [(book_id_seq s, bk)]"
  "book_author (working (book_pending bk s)) = book_author (working s)"
  "author_id_seq (book_pending bk s) = author_id_seq s"
  "book_id_seq (book_pending bk s) = Suc (book_id_seq s)"
  "trace (book_pending bk s) =
     trace s @ [PrintInsertingBook (title bk) (isbn13 bk), PrintInsertedBook (book_id_seq s)]"
  "connection (book_pending bk s) = connection s"
  "cursor (book_pending bk s) = cursor s"
  by (simp_all add: book_pending_def emit_def)

lemma book_params_fields:
  "book_params r = Inr bk \<Longrightarrow>
     r ''isbn13'' = Some (isbn13 bk) \<and> r ''original_publication_year'' = Some (publication_year bk) \<and>
     r ''title'' = Some (title bk) \<and> r ''average_rating'' = Some (rating_avg bk) \<and>
     r ''ratings_count'' = Some (rating_count bk) \<and> r ''image_url'' = Some (image_url bk) \<and>
     r ''small_image_url'' = Some (image_small_url bk)"
  by (auto simp: book_params_def getitem_def split: option.splits)

lemma process_row_accepted:
  assumes bk: "book_params r = Inr bk" and acc: "accepts_book st bk"
  shows "process_row st r s =
     (case r ''authors'' of
        None \<Rightarrow> (Inl (KeyError ''authors''), book_pending bk s)
      | Some PyNone \<Rightarrow> (Inl AttributeError, book_pending bk s)
      | Some (PyStr field) \<Rightarrow>
          (case link_authors st (book_id_seq s) (author_names field) (book_pending bk s) of
             (Inl e, s4) \<Rightarrow> (Inl e, s4)
           | (Inr u, s4) \<Rightarrow> (Inr (), commit s4)))"
proof -
  from bk have "r ''title'' = Some (title bk)" "r ''isbn13'' = Some (isbn13 bk)"
    by (simp_all add: book_params_fields)
  with bk acc show ?thesis
    by (simp add: process_row_def getitem_def insert_book_def book_pending_def Let_def
          split: option.splits pyval.splits)
qed

lemma process_row_no_params:
  "book_params r = Inl e \<Longrightarrow> \<exists>e'. fst (process_row st r s) = Inl e'"
  by (auto simp: process_row_def getitem_def Let_def split: option.splits sum.splits)

lemma process_row_book_rejected:
  "book_params r = Inr bk \<Longrightarrow> \<not> accepts_book st bk \<Longrightarrow> \<exists>e'. fst (process_row st r s) = Inl e'"
  by (auto simp: process_row_def getitem_def insert_book_def Let_def split: option.splits sum.splits)

lemma process_row_success:
  assumes "process_row st r s = (Inr u, s')"
  obtains bk field s4 where "book_params r = Inr bk" "accepts_book st bk"
    "r ''authors'' = Some (PyStr field)"
    "link_authors st (book_id_seq s) (author_names field) (book_pending bk s) = (Inr (), s4)"
    "s' = commit s4"
proof (cases "book_params r")
  case (Inl e)
  then have "\<exists>e'. fst (process_row st r s) = Inl e'"
    by (rule process_row_no_params)
  with assms show ?thesis by simp
next
  case (Inr bk)
  show ?thesis
  proof (cases "accepts_book st bk")
    case False
    with Inr have "\<exists>e'. fst (process_row st r s) = Inl e'"
      by (rule process_row_book_rejected)
    with assms show ?thesis by simp
  next
    case True
    from assms process_row_accepted[OF Inr True, of s] that[OF Inr True] show ?thesis
      by (auto split: option.splits pyval.splits prod.splits sum.splits)
  qed
qed

lemma keys_ok_book_pending: "keys_ok s \<Longrightarrow> keys_ok (book_pending bk s)"
  by (auto simp: keys_ok_def less_Suc_eq)

lemma keys_ok_commit: "keys_ok s \<Longrightarrow> keys_ok (commit s)"
  by (simp add: keys_ok_def)

lemma process_row_counts:
  assumes p: "process_row st r s = (Inr u, s')" and k: "keys_ok s"
  shows "keys_ok s' \<and> committed s' = working s' \<and>
    length (books (working s')) = Suc (length (books (working s))) \<and>
    length (book_author (working s')) = length (book_author (working s)) + card (set (mentions r))"
  using p
proof (cases rule: process_row_success)
  case (1 bk field s4)
  let ?s3 = "book_pending bk s"
  have k3: "keys_ok ?s3" using k by (rule keys_ok_book_pending)
  have b: "book_id_seq s < book_id_seq ?s3" by simp
  have fresh: "\<forall>p \<in> set (book_author (working ?s3)). fst p \<noteq> book_id_seq s"
    using k by (auto simp: keys_ok_def)
  from link_authors_keys[OF 1(4) k3 b] link_authors_count[OF 1(4) k3 b fresh] 1(3) 1(5)
  show ?thesis
    by (simp add: keys_ok_commit mentions_def)
qed

lemma ingest_rows_counts:
  assumes "ingest_rows st rows s = (Inr u, s')" and "keys_ok s"
  shows "keys_ok s' \<and>
    length (books (working s')) = length (books (working s)) + length rows \<and>
    length (book_author (working s')) =
      length (book_author (working s)) + sum_list (map (\<lambda>r. card (set (mentions r))) rows)"
  using assms
proof (induction rows arbitrary: s)
  case Nil
  then show ?case by simp
next
  case (Cons r rows)
  obtain r1 s1 where p: "process_row st r s = (r1, s1)" by force
  with Cons.prems(1) have r1: "r1 = Inr ()" by (cases r1) auto
  with p Cons.prems(1) have i: "ingest_rows st rows s1 = (Inr u, s')" by simp
  from process_row_counts[OF p[unfolded r1] Cons.prems(2)] Cons.IH[OF i]
  show ?case by simp
qed

lemma ingest_rows_committed:
  "ingest_rows st rows s = (Inr u, s') \<Longrightarrow> committed s = working s \<Longrightarrow> committed s' = working s'"
proof (induction rows arbitrary: s)
  case Nil
  then show ?case by simp
next
  case (Cons r rows)
  obtain r1 s1 where p: "process_row st r s = (r1, s1)" by force
  with Cons.prems(1) have r1: "r1 = Inr ()" by (cases r1) auto
  with p Cons.prems(1) have i: "ingest_rows st rows s1 = (Inr u, s')" by simp
  from p r1 have "committed s1 = working s1"
    by (auto elim!: process_row_success)
  with i show ?case by (rule Cons.IH)
qed

lemma pairs_card:
  "card (SIGMA i:{..<length rows}. set (mentions (rows ! i))) =
     sum_list (map (\<lambda>r. card (set (mentions r))) rows)"
proof -
  have "card (SIGMA i:{..<length rows}. set (mentions (rows ! i))) =
          (\<Sum>i\<in>{..<length rows}. card (set (mentions (rows ! i))))"
    by (intro card_SigmaI) auto
  also have "\<dots> = (\<Sum>i = 0..<length rows. map (\<lambda>r. card (set (mentions r))) rows ! i)"
    by (intro sum.cong) auto
  also have "\<dots> = sum_list (map (\<lambda>r. card (set (mentions r))) rows)"
    using sum_list_sum_nth[of "map (\<lambda>r. card (set (mentions r))) rows"] by simp
  finally show ?thesis .
qed

lemma link_authors_exn:
  "link_authors st b names s = (Inl e, s') \<Longrightarrow> e = StoreError"
proof (induction names arbitrary: s)
  case Nil
  then show ?case by simp
next
  case (Cons n names)
  obtain r1 s1 where g: "get_or_create_author st n s = (r1, s1)" by force
  then show ?case
  proof (cases rule: author_cases)
    case (found a)
    with g Cons.prems have "link_authors st b names (insert_book_author b a s1) = (Inl e, s')"
      by simp
    then show ?thesis by (rule Cons.IH)
  next
    case created
    with g Cons.prems
    have "link_authors st b names (insert_book_author b (author_id_seq s) s1) = (Inl e, s')"
      by simp
    then show ?thesis by (rule Cons.IH)
  next
    case rejected
    with g Cons.prems show ?thesis by simp
  qed
qed

lemma book_params_exn: "book_params r = Inl e \<Longrightarrow> \<exists>k. e = KeyError k"
  by (auto simp: book_params_def getitem_def split: option.splits)

lemma process_row_exn:
  assumes "process_row st r s = (Inl e, s')"
  shows "e \<noteq> FileNotFoundError"
proof (cases "book_params r")
  case (Inl e1)
  then obtain k where "e1 = KeyError k" using book_params_exn by blast
  with Inl assms show ?thesis
    by (auto simp: process_row_def getitem_def Let_def split: option.splits)
next
  case (Inr bk)
  show ?thesis
  proof (cases "accepts_book st bk")
    case False
    with Inr assms show ?thesis
      by (auto simp: process_row_def getitem_def insert_book_def Let_def split: option.splits)
  next
    case True
    from assms show ?thesis
      unfolding process_row_accepted[OF Inr True]
      by (auto split: option.splits pyval.splits prod.splits sum.splits dest: link_authors_exn)
  qed
qed

lemma ingest_rows_stops:
  "ingest_rows st earlier s = (Inr u, s1) \<Longrightarrow> process_row st r s1 = (Inl e, s2) \<Longrightarrow>
   ingest_rows st (earlier @ r # later) s = (Inl e, s2)"
proof (induction earlier arbitrary: s)
  case Nil
  then show ?case by simp
next
  case (Cons x earlier)
  obtain r1 s' where p: "process_row st x s = (r1, s')" by force
  with Cons.prems(1) have r1: "r1 = Inr ()" by (cases r1) auto
  with p Cons.prems(1) have "ingest_rows st earlier s' = (Inr u, s1)" by simp
  from Cons.IH[OF this Cons.prems(2)] p r1 show ?case by simp
qed

lemma teardown_fields [simp]:
  "committed (teardown s) = committed s"
  "working (teardown s) = committed s"
  "author_id_seq (teardown s) = author_id_seq s"
  "book_id_seq (teardown s) = book_id_seq s"
  "trace (teardown s) = trace s @ [PrintClosing]"
  "connection (teardown s) = Closed"
  "cursor (teardown s) = Closed"
  by (simp_all add: teardown_def)

lemma handler_fields [simp]:
  "committed (handler e s) = committed s"
  "working (handler e s) = working s"
  "author_id_seq (handler e s) = author_id_seq s"
  "book_id_seq (handler e s) = book_id_seq s"
  "connection (handler e s) = connection s"
  "cursor (handler e s) = cursor s"
  by (simp_all add: handler_def split: exn.splits)

lemma boot_fields [simp]:
  "committed (boot db a b tr) = db"
  "working (boot db a b tr) = db"
  "author_id_seq (boot db a b tr) = a"
  "book_id_seq (boot db a b tr) = b"
  "trace (boot db a b tr) = tr"
  "connection (boot db a b tr) = Absent"
  "cursor (boot db a b tr) = Absent"
  by (simp_all add: boot_def)

lemma load_csv_trace:
  assumes "extends (committed s) (working s)"
  shows "prefix (trace s @ [PrintLoading]) (trace (load_csv st f s))"
proof (cases f)
  case NoSuchFile
  then show ?thesis by (simp add: load_csv_def handler_def)
next
  case (CsvFile rows)
  obtain res s1 where i: "ingest_rows st rows (emit PrintLoading s) = (res, s1)" by force
  have "extends (committed (emit PrintLoading s)) (working (emit PrintLoading s))"
    using assms by simp
  from grows_ingest_rows[OF this i] have p: "prefix (trace s @ [PrintLoading]) (trace s1)"
    by (simp add: grows_def)
  show ?thesis
  proof (cases res)
    case (Inl e)
    have "prefix (trace s1) (trace (handler e s1))"
      by (simp add: handler_def split: exn.splits)
    with p Inl i CsvFile show ?thesis
      by (simp add: load_csv_def)
  next
    case (Inr u)
    with p i CsvFile show ?thesis by (simp add: load_csv_def)
  qed
qed

lemma author_keeps_books:
  assumes "get_or_create_author st n s = (res, s1)"
  shows "books (working s1) = books (working s) \<and> book_id_seq s1 = book_id_seq s \<and>
         book_author (working s1) = book_author (working s)"
  using assms by (cases rule: author_cases) simp_all

lemma link_authors_books:
  "link_authors st b names s = (res, s') \<Longrightarrow>
   books (working s') = books (working s) \<and> book_id_seq s' = book_id_seq s \<and>
   (\<exists>ext. book_author (working s') = book_author (working s) @ ext \<and> (\<forall>p \<in> set ext. fst p = b))"
proof (induction names arbitrary: s)
  case Nil
  then show ?case by simp
next
  case (Cons n names)
  obtain r1 s1 where g: "get_or_create_author st n s = (r1, s1)" by force
  note k = author_keeps_books[OF g]
  show ?case
  proof (cases r1)
    case (Inl e)
    with g Cons.prems k show ?thesis by simp
  next
    case (Inr a)
    let ?s2 = "insert_book_author b a s1"
    from Inr g Cons.prems have "link_authors st b names ?s2 = (res, s')" by simp
    from Cons.IH[OF this] obtain ext where
      ih: "books (working s') = books (working ?s2)" "book_id_seq s' = book_id_seq ?s2"
        "book_author (working s') = book_author (working ?s2) @ ext" "\<forall>p \<in> set ext. fst p = b"
      by blast
    have s2: "books (working ?s2) = books (working s1)" "book_id_seq ?s2 = book_id_seq s1"
      "\<exists>e2. book_author (working ?s2) = book_author (working s1) @ e2 \<and> (\<forall>p \<in> set e2. fst p = b)"
      by (auto simp: insert_book_author_def)
    then obtain e2 where e2: "book_author (working ?s2) = book_author (working s1) @ e2"
      "\<forall>p \<in> set e2. fst p = b" by blast
    have "book_author (working s') = book_author (working s) @ (e2 @ ext)"
      using ih(3) e2(1) k by simp
    moreover have "\<forall>p \<in> set (e2 @ ext). fst p = b" using ih(4) e2(2) by auto
    ultimately show ?thesis using ih(1,2) s2(1,2) k by metis
  qed
qed

lemma process_row_book:
  assumes "process_row st r s = (Inr u, s')"
  shows "\<exists>bk. book_params r = Inr bk \<and> accepts_book st bk \<and>
           books (working s') = books (working s) @ [(book_id_seq s, bk)] \<and>
           book_id_seq s' = Suc (book_id_seq s) \<and> committed s' = working s' \<and>
           (\<exists>ext. book_author (working s') = book_author (working s) @ ext \<and>
                  (\<forall>p \<in> set ext. fst p = book_id_seq s))"
  using assms
proof (cases rule: process_row_success)
  case (1 bk field s4)
  from link_authors_books[OF 1(4)] 1(1,2,5) show ?thesis by simp
qed

lemma ingest_rows_books:
  "ingest_rows st rows s = (Inr u, s') \<Longrightarrow>
   length (books (working s')) = length (books (working s)) + length rows"
proof (induction rows arbitrary: s)
  case Nil
  then show ?case by simp
next
  case (Cons r rows)
  obtain r1 s1 where p: "process_row st r s = (r1, s1)" by force
  with Cons.prems(1) have r1: "r1 = Inr ()" by (cases r1) auto
  with p Cons.prems(1) have i: "ingest_rows st rows s1 = (Inr u, s')" by simp
  from process_row_book[OF p[unfolded r1]] Cons.IH[OF i] show ?case by auto
qed

subsection \<open>Connecting\<close>

lemma upto_five: "[0..(4::int)] = [0, 1, 2, 3, 4]"
  by (simp add: upto_rec1)

lemma connect_first_success:
  assumes k: "0 \<le> k" "k < 5" and up: "up k" and before: "\<forall>j. 0 \<le> j \<and> j < k \<longrightarrow> \<not> up j"
  shows "connect_to_database up 5 d =
           (Connection,
            PrintConnecting # concat (replicate (nat k) [PrintFailedToConnect, PrintRetrying d, Sleep d])
              @ [PrintConnected])"
proof -
  from k have "k = 0 \<or> k = 1 \<or> k = 2 \<or> k = 3 \<or> k = 4" by arith
  then show ?thesis
  proof (elim disjE)
    assume "k = 0"
    with up show ?thesis by (simp add: connect_to_database_def upto_five)
  next
    assume "k = 1"
    with up before have "up 1" "\<not> up 0" by auto
    with \<open>k = 1\<close> show ?thesis by (simp add: connect_to_database_def upto_five)
  next
    assume "k = 2"
    with up before have "up 2" "\<not> up 0" "\<not> up 1" by auto
    with \<open>k = 2\<close> show ?thesis by (simp add: connect_to_database_def upto_five numeral_2_eq_2)
  next
    assume "k = 3"
    with up before have "up 3" "\<not> up 0" "\<not> up 1" "\<not> up 2" by auto
    with \<open>k = 3\<close> show ?thesis by (simp add: connect_to_database_def upto_five numeral_3_eq_3)
  next
    assume "k = 4"
    with up before have "up 4" "\<not> up 0" "\<not> up 1" "\<not> up 2" "\<not> up 3" by auto
    with \<open>k = 4\<close> show ?thesis by (simp add: connect_to_database_def upto_five eval_nat_numeral)
  qed
qed

lemma connect_all_fail:
  assumes "\<forall>j. 0 \<le> j \<and> j < 5 \<longrightarrow> \<not> up j"
  shows "connect_to_database up 5 d =
           (SystemExit 1,
            PrintConnecting # concat (replicate 4 [PrintFailedToConnect, PrintRetrying d, Sleep d])
              @ [PrintFailedToConnect])"
proof -
  from assms have "\<not> up 0" "\<not> up 1" "\<not> up 2" "\<not> up 3" "\<not> up 4" by auto
  then show ?thesis by (simp add: connect_to_database_def upto_five eval_nat_numeral)
qed

lemma main_connected:
  assumes "connect_to_database up 5 5 = (Connection, tr)"
  shows "main up st f db a b =
     \<lparr>exit_status = 0,
      final = teardown (load_csv st f ((boot db a b tr)\<lparr>connection := Opened, cursor := Opened\<rparr>))\<rparr>"
    and "PrintLoading \<in> set (trace (final (main up st f db a b)))"
proof -
  let ?s = "(boot db a b tr)\<lparr>connection := Opened, cursor := Opened\<rparr>"
  show m: "main up st f db a b = \<lparr>exit_status = 0, final = teardown (load_csv st f ?s)\<rparr>"
    using assms by (simp add: main_def)
  have "extends (committed ?s) (working ?s)" by simp
  then have "prefix (trace ?s @ [PrintLoading]) (trace (load_csv st f ?s))"
    by (rule load_csv_trace)
  then have "PrintLoading \<in> set (trace (load_csv st f ?s))"
    by (auto simp: prefix_def)
  with m show "PrintLoading \<in> set (trace (final (main up st f db a b)))" by simp
qed

lemma connect_some_success:
  assumes "\<exists>j. 0 \<le> j \<and> j < 5 \<and> up j"
  shows "\<exists>tr. connect_to_database up 5 d = (Connection, tr)"
proof -
  from assms obtain j where j: "0 \<le> j" "j < 5" "up j" by blast
  then have "j = 0 \<or> j = 1 \<or> j = 2 \<or> j = 3 \<or> j = 4" by arith
  with j(3) have "up 0 \<or> up 1 \<or> up 2 \<or> up 3 \<or> up 4" by auto
  then show ?thesis
    by (auto simp: connect_to_database_def upto_five)
qed

text \<open>
  Claim C2. With the default budget of five attempts, \<^verbatim>\<open>connect_to_database\<close> returns
  a connection whenever one of the attempts 0..4 succeeds, in particular when only the
  fifth does, and the module then goes on to the ingestion and ends with status 0.
  Before the first success there is one sleep of the delay \<open>d\<close> after each failed
  attempt; after the fifth failure there is none, so every sleep lasts exactly \<open>d\<close> and
  lies between two attempts. When all five attempts fail the process ends with status 1
  and nothing of the ingestion happens: the database is as it was and the loading line
  is never printed.
\<close>

theorem connect_retry_default_budget:
  "((\<exists>j. 0 \<le> j \<and> j < 5 \<and> up j) \<longrightarrow>
      fst (connect_to_database up 5 5) = Connection \<and>
      main up st f db a b =
        \<lparr>exit_status = 0,
         final = teardown (load_csv st f
                   ((boot db a b (snd (connect_to_database up 5 5)))\<lparr>connection := Opened, cursor := Opened\<rparr>))\<rparr> \<and>
      PrintLoading \<in> set (trace (final (main up st f db a b)))) \<and>
   (0 \<le> k \<and> k < 5 \<and> up k \<and> (\<forall>j. 0 \<le> j \<and> j < k \<longrightarrow> \<not> up j) \<longrightarrow>
      connect_to_database up 5 d =
        (Connection,
         PrintConnecting # concat (replicate (nat k) [PrintFailedToConnect, PrintRetrying d, Sleep d])
           @ [PrintConnected])) \<and>
   ((\<forall>j. 0 \<le> j \<and> j < 5 \<longrightarrow> \<not> up j) \<longrightarrow>
      connect_to_database up 5 d =
        (SystemExit 1,
         PrintConnecting # concat (replicate 4 [PrintFailedToConnect, PrintRetrying d, Sleep d])
           @ [PrintFailedToConnect]) \<and>
      main up st f db a b =
        \<lparr>exit_status = 1, final = boot db a b (snd (connect_to_database up 5 5))\<rparr> \<and>
      committed (final (main up st f db a b)) = db \<and>
      PrintLoading \<notin> set (trace (final (main up st f db a b))))"
proof -
  have 1: "fst (connect_to_database up 5 5) = Connection \<and>
      main up st f db a b =
        \<lparr>exit_status = 0,
         final = teardown (load_csv st f
                   ((boot db a b (snd (connect_to_database up 5 5)))\<lparr>connection := Opened, cursor := Opened\<rparr>))\<rparr> \<and>
      PrintLoading \<in> set (trace (final (main up st f db a b)))"
    if "\<exists>j. 0 \<le> j \<and> j < 5 \<and> up j"
  proof -
    from connect_some_success[OF that, of 5] obtain tr where
      c: "connect_to_database up 5 5 = (Connection, tr)" by blast
    from main_connected[OF c, of st f db a b] c show ?thesis by simp
  qed
  have 2: "connect_to_database up 5 d =
        (Connection,
         PrintConnecting # concat (replicate (nat k) [PrintFailedToConnect, PrintRetrying d, Sleep d])
           @ [PrintConnected])"
    if "0 \<le> k \<and> k < 5 \<and> up k \<and> (\<forall>j. 0 \<le> j \<and> j < k \<longrightarrow> \<not> up j)"
    using that by (intro connect_first_success) simp_all
  have 3: "connect_to_database up 5 d =
        (SystemExit 1,
         PrintConnecting # concat (replicate 4 [PrintFailedToConnect, PrintRetrying d, Sleep d])
           @ [PrintFailedToConnect]) \<and>
      main up st f db a b =
        \<lparr>exit_status = 1, final = boot db a b (snd (connect_to_database up 5 5))\<rparr> \<and>
      committed (final (main up st f db a b)) = db \<and>
      PrintLoading \<notin> set (trace (final (main up st f db a b)))"
    if h: "\<forall>j. 0 \<le> j \<and> j < 5 \<longrightarrow> \<not> up j"
  proof -
    have c: "connect_to_database up 5 5 =
        (SystemExit 1,
         PrintConnecting # concat (replicate 4 [PrintFailedToConnect, PrintRetrying 5, Sleep 5])
           @ [PrintFailedToConnect])"
      using h by (rule connect_all_fail)
    then have m: "main up st f db a b =
        \<lparr>exit_status = 1, final = boot db a b (snd (connect_to_database up 5 5))\<rparr>"
      by (simp add: main_def)
    from m c have "PrintLoading \<notin> set (trace (final (main up st f db a b)))"
      by (simp add: eval_nat_numeral)
    with m connect_all_fail[OF h, of d] show ?thesis by simp
  qed
  from 1 2 3 show ?thesis by blast
qed

theorem connect_retry_default_budget_witness:
  "up_at_fifth 4 \<and> \<not> up_at_fifth 3 \<and>
   connect_to_database up_at_fifth 5 5 =
     (Connection,
      [PrintConnecting,
       PrintFailedToConnect, PrintRetrying 5, Sleep 5, PrintFailedToConnect, PrintRetrying 5, Sleep 5,
       PrintFailedToConnect, PrintRetrying 5, Sleep 5, PrintFailedToConnect, PrintRetrying 5, Sleep 5,
       PrintConnected]) \<and>
   exit_status (main up_at_fifth small_store NoSuchFile empty_db 1 1) = 0 \<and>
   \<not> never_up 4 \<and>
   exit_status (main never_up small_store NoSuchFile empty_db 1 1) = 1 \<and>
   committed (final (main never_up small_store NoSuchFile empty_db 1 1)) = empty_db"
proof -
  have e: "\<exists>j. 0 \<le> j \<and> j < 5 \<and> up_at_fifth j"
    by (rule exI[of _ 4]) (simp add: up_at_fifth_def)
  have f: "0 \<le> (4::int) \<and> (4::int) < 5 \<and> up_at_fifth 4 \<and> (\<forall>j. 0 \<le> j \<and> j < 4 \<longrightarrow> \<not> up_at_fifth j)"
    by (simp add: up_at_fifth_def)
  have n: "\<forall>j. 0 \<le> j \<and> j < 5 \<longrightarrow> \<not> never_up j" by (simp add: never_up_def)
  from connect_retry_default_budget[of up_at_fifth small_store NoSuchFile empty_db 1 1 4 5] e f
    connect_retry_default_budget[of never_up small_store NoSuchFile empty_db 1 1 0 5] n
  show ?thesis
    by (simp add: up_at_fifth_def never_up_def eval_nat_numeral)
qed

subsection \<open>The missing input file\<close>

text \<open>
  Claim C8. When the input file does not exist, the handler of \<^verbatim>\<open>FileNotFoundError\<close>
  prints the error, no table changes and no key is generated, the cursor and the
  connection are closed, and the exit status is 0.
\<close>

theorem missing_file:
  "connect_to_database up 5 5 = (Connection, tr) \<Longrightarrow>
   main up st NoSuchFile db a b =
     \<lparr>exit_status = 0,
      final = \<lparr>committed = db, working = db, author_id_seq = a, book_id_seq = b,
               trace = tr @ [PrintLoading, PrintError FileNotFoundError, PrintClosing],
               connection = Closed, cursor = Closed\<rparr>\<rparr>"
  by (simp add: main_def load_csv_def handler_def teardown_def emit_def boot_def)

lemma connect_always_up:
  "connect_to_database always_up 5 5 = (Connection, [PrintConnecting, PrintConnected])"
  by (simp add: connect_to_database_def upto_five always_up_def)

theorem missing_file_witness:
  "connect_to_database always_up 5 5 = (Connection, [PrintConnecting, PrintConnected]) \<and>
   main always_up small_store NoSuchFile empty_db 1 1 =
     \<lparr>exit_status = 0,
      final = \<lparr>committed = empty_db, working = empty_db, author_id_seq = 1, book_id_seq = 1,
               trace = [PrintConnecting, PrintConnected, PrintLoading, PrintError FileNotFoundError,
                        PrintClosing],
               connection = Closed, cursor = Closed\<rparr>\<rparr>"
  using missing_file[OF connect_always_up, of small_store empty_db 1 1] connect_always_up
  by simp

subsection \<open>A row that fails\<close>

text \<open>
  Claim C7. When the body of the loop raises at some row, after the rows before it went
  through, the exception is not a \<^verbatim>\<open>FileNotFoundError\<close>, so the general handler prints
  it as it is; the loop is left, whatever rows follow: the result does not depend on
  them. What the earlier rows wrote is committed and stays in the database, the cursor
  and the connection are closed, and the exit status is 0.
\<close>

theorem row_failure:
  assumes c: "connect_to_database up 5 5 = (Connection, tr)"
    and i: "ingest_rows st earlier
             (emit PrintLoading ((boot db a b tr)\<lparr>connection := Opened, cursor := Opened\<rparr>)) = (Inr u, s1)"
    and p: "process_row st r s1 = (Inl e, s2)"
  shows "main up st (CsvFile (earlier @ r # later)) db a b =
           \<lparr>exit_status = 0, final = teardown (emit (PrintErrorWhileLoading e) s2)\<rparr> \<and>
         trace (final (main up st (CsvFile (earlier @ r # later)) db a b)) =
           trace s2 @ [PrintErrorWhileLoading e, PrintClosing] \<and>
         committed s1 = working s1 \<and>
         length (books (working s1)) = length (books db) + length earlier \<and>
         extends (working s1) (committed (final (main up st (CsvFile (earlier @ r # later)) db a b))) \<and>
         connection (final (main up st (CsvFile (earlier @ r # later)) db a b)) = Closed \<and>
         cursor (final (main up st (CsvFile (earlier @ r # later)) db a b)) = Closed"
proof -
  let ?s0 = "emit PrintLoading ((boot db a b tr)\<lparr>connection := Opened, cursor := Opened\<rparr>)"
  have e: "e \<noteq> FileNotFoundError" using p by (rule process_row_exn)
  have stop: "ingest_rows st (earlier @ r # later) ?s0 = (Inl e, s2)"
    using i p by (rule ingest_rows_stops)
  have h: "handler e s2 = emit (PrintErrorWhileLoading e) s2"
    using e by (cases e) (simp_all add: handler_def)
  have m: "main up st (CsvFile (earlier @ r # later)) db a b =
           \<lparr>exit_status = 0, final = teardown (emit (PrintErrorWhileLoading e) s2)\<rparr>"
    using c stop h by (simp add: main_def load_csv_def)
  have j0: "committed ?s0 = working ?s0" by simp
  have c1: "committed s1 = working s1" using i j0 by (rule ingest_rows_committed)
  then have "extends (committed s1) (working s1)" by simp
  from grows_process_row[OF this p] c1 have g: "extends (working s1) (committed s2)"
    by (simp add: grows_def)
  have n: "length (books (working s1)) = length (books db) + length earlier"
    using ingest_rows_books[OF i] by simp
  from m g c1 n show ?thesis by simp
qed

theorem row_failure_witness:
  "connect_to_database always_up 5 5 = (Connection, [PrintConnecting, PrintConnected]) \<and>
   fst (ingest_rows small_store [sample_row ''Ann''] fresh_session) = Inr () \<and>
   fst (process_row small_store short_row
          (snd (ingest_rows small_store [sample_row ''Ann''] fresh_session))) = Inl AttributeError \<and>
   exit_status (main always_up small_store
      (CsvFile ([sample_row ''Ann''] @ short_row # [sample_row ''Bob''])) empty_db 1 1) = 0 \<and>
   committed (final (main always_up small_store
      (CsvFile ([sample_row ''Ann''] @ short_row # [sample_row ''Bob''])) empty_db 1 1)) =
     \<lparr>authors = [(1, str_of ''Ann'')], books = [(1, sample_book)], book_author = [(1, 1)]\<rparr>"
proof -
  let ?s1 = "snd (ingest_rows small_store [sample_row ''Ann''] fresh_session)"
  let ?s2 = "snd (process_row small_store short_row ?s1)"
  have f1: "fst (ingest_rows small_store [sample_row ''Ann''] fresh_session) = Inr ()"
    by (simp add: run_defs)
  have f2: "fst (process_row small_store short_row ?s1) = Inl AttributeError"
    by (simp add: run_defs)
  have i: "ingest_rows small_store [sample_row ''Ann'']
             (emit PrintLoading ((boot empty_db 1 1 [PrintConnecting, PrintConnected])\<lparr>connection := Opened, cursor := Opened\<rparr>)) = (Inr (), ?s1)"
    using f1 by (simp add: fresh_session_def prod_eq_iff)
  have p: "process_row small_store short_row ?s1 = (Inl AttributeError, ?s2)"
    using f2 by (simp add: prod_eq_iff)
  have "committed ?s2 =
     \<lparr>authors = [(1, str_of ''Ann'')], books = [(1, sample_book)], book_author = [(1, 1)]\<rparr>"
    by (simp add: run_defs)
  with row_failure[OF connect_always_up i p, of "[sample_row ''Bob'']"] connect_always_up f1 f2
  show ?thesis by simp
qed

subsection \<open>The book insert\<close>

lemma process_row_untouched:
  assumes "(\<exists>e. book_params r = Inl e) \<or> (\<exists>bk. book_params r = Inr bk \<and> \<not> accepts_book st bk)"
  shows "working (snd (process_row st r s)) = working s"
  using assms
  by (auto simp: process_row_def getitem_def insert_book_def Let_def split: option.splits sum.splits)

lemma process_row_inserted:
  assumes bk: "book_params r = Inr bk" and acc: "accepts_book st bk"
  shows "books (working (snd (process_row st r s))) = books (working s) @ [(book_id_seq s, bk)] \<and>
         (\<exists>ext. book_author (working (snd (process_row st r s))) = book_author (working s) @ ext \<and>
                (\<forall>p \<in> set ext. fst p = book_id_seq s))"
proof (cases "r ''authors''")
  case None
  then show ?thesis unfolding process_row_accepted[OF bk acc] by simp
next
  case (Some v)
  show ?thesis
  proof (cases v)
    case PyNone
    with Some show ?thesis unfolding process_row_accepted[OF bk acc] by simp
  next
    case (PyStr field)
    obtain res s4 where
      l: "link_authors st (book_id_seq s) (author_names field) (book_pending bk s) = (res, s4)"
      by force
    from link_authors_books[OF l] Some PyStr l show ?thesis
      unfolding process_row_accepted[OF bk acc] by (cases res) auto
  qed
qed

text \<open>
  Claim C9. The parameters of the book insert are the row's values under \<open>isbn13\<close>,
  \<open>original_publication_year\<close>, \<open>title\<close>, \<open>average_rating\<close>, \<open>ratings_count\<close>,
  \<open>image_url\<close> and \<open>small_image_url\<close>, in this order, for the columns \<open>isbn13\<close>,
  \<open>publication_year\<close>, \<open>title\<close>, \<open>rating_avg\<close>, \<open>rating_count\<close>, \<open>image_url\<close> and
  \<open>image_small_url\<close>, passed on as they are. Whenever the insert runs and the store
  takes it, the row it adds holds exactly these values under the generated key, and
  every association that the row goes on to insert carries that key.
\<close>

theorem book_insert_verbatim:
  "(book_params r = Inr bk \<longrightarrow>
      r ''isbn13'' = Some (isbn13 bk) \<and>
      r ''original_publication_year'' = Some (publication_year bk) \<and>
      r ''title'' = Some (title bk) \<and>
      r ''average_rating'' = Some (rating_avg bk) \<and>
      r ''ratings_count'' = Some (rating_count bk) \<and>
      r ''image_url'' = Some (image_url bk) \<and>
      r ''small_image_url'' = Some (image_small_url bk)) \<and>
   books (working (snd (process_row st r s))) =
     (case book_params r of
        Inl e \<Rightarrow> books (working s)
      | Inr bk \<Rightarrow> if accepts_book st bk then books (working s) @ [(book_id_seq s, bk)]
                  else books (working s)) \<and>
   (\<exists>ext. book_author (working (snd (process_row st r s))) = book_author (working s) @ ext \<and>
          (\<forall>p \<in> set ext. fst p = book_id_seq s))"
proof -
  have f: "book_params r = Inr bk \<longrightarrow>
      r ''isbn13'' = Some (isbn13 bk) \<and>
      r ''original_publication_year'' = Some (publication_year bk) \<and>
      r ''title'' = Some (title bk) \<and>
      r ''average_rating'' = Some (rating_avg bk) \<and>
      r ''ratings_count'' = Some (rating_count bk) \<and>
      r ''image_url'' = Some (image_url bk) \<and>
      r ''small_image_url'' = Some (image_small_url bk)"
    using book_params_fields by blast
  have g: "books (working (snd (process_row st r s))) =
     (case book_params r of
        Inl e \<Rightarrow> books (working s)
      | Inr bk \<Rightarrow> if accepts_book st bk then books (working s) @ [(book_id_seq s, bk)]
                  else books (working s))"
  proof (cases "book_params r")
    case (Inl e)
    then show ?thesis using process_row_untouched[of r st s] by simp
  next
    case (Inr b)
    then show ?thesis
      using process_row_untouched[of r st s] process_row_inserted[OF Inr, of st s] by auto
  qed
  have h: "\<exists>ext. book_author (working (snd (process_row st r s))) = book_author (working s) @ ext \<and>
          (\<forall>p \<in> set ext. fst p = book_id_seq s)"
  proof (cases "book_params r")
    case (Inl e)
    then show ?thesis using process_row_untouched[of r st s] by simp
  next
    case (Inr b)
    then show ?thesis
      using process_row_untouched[of r st s] process_row_inserted[OF Inr, of st s]
      by (cases "accepts_book st b") auto
  qed
  from f g h show ?thesis by blast
qed

theorem book_insert_verbatim_witness:
  "book_params (sample_row ''Ann'') = Inr sample_book \<and>
   sample_row ''Ann'' ''original_publication_year'' = Some (publication_year sample_book) \<and>
   sample_row ''Ann'' ''small_image_url'' = Some (image_small_url sample_book) \<and>
   books (working (snd (process_row small_store (sample_row ''Ann'') fresh_session))) =
     [(1, sample_book)] \<and>
   book_author (working (snd (process_row small_store (sample_row ''Ann'') fresh_session))) = [(1, 1)]"
proof -
  have b: "book_params (sample_row ''Ann'') = Inr sample_book"
    by (simp add: book_params_def getitem_def sample_row_def sample_book_def)
  have a: "book_author (working (snd (process_row small_store (sample_row ''Ann'') fresh_session))) = [(1, 1)]"
    by (simp add: run_defs)
  from book_insert_verbatim[of "sample_row ''Ann''" sample_book small_store fresh_session] b a
  show ?thesis
    by (simp add: small_store_def fresh_session_def empty_db_def)
qed

subsection \<open>A clean run\<close>

lemma ingest_rows_book_rows:
  "ingest_rows st rows s = (Inr u, s') \<Longrightarrow>
   \<exists>new. books (working s') = books (working s) @ new \<and>
         map fst new = [book_id_seq s ..< book_id_seq s + length rows] \<and>
         map (\<lambda>p. Inr (snd p)) new = map book_params rows"
proof (induction rows arbitrary: s)
  case Nil
  then show ?case by simp
next
  case (Cons r rows)
  obtain r1 s1 where p: "process_row st r s = (r1, s1)" by force
  with Cons.prems(1) have r1: "r1 = Inr ()" by (cases r1) auto
  with p Cons.prems(1) have i: "ingest_rows st rows s1 = (Inr u, s')" by simp
  from process_row_book[OF p[unfolded r1]] obtain bk where
    bk: "book_params r = Inr bk" "books (working s1) = books (working s) @ [(book_id_seq s, bk)]"
      "book_id_seq s1 = Suc (book_id_seq s)"
    by blast
  from Cons.IH[OF i] obtain new where
    new: "books (working s') = books (working s1) @ new"
      "map fst new = [book_id_seq s1 ..< book_id_seq s1 + length rows]"
      "map (\<lambda>p. Inr (snd p)) new = map book_params rows"
    by blast
  have "books (working s') = books (working s) @ ((book_id_seq s, bk) # new)"
    using bk new by simp
  moreover have "map fst ((book_id_seq s, bk) # new) = [book_id_seq s ..< book_id_seq s + length (r # rows)]"
  proof -
    have "book_id_seq s < book_id_seq s + length (r # rows)" by simp
    then have u: "[book_id_seq s ..< book_id_seq s + length (r # rows)] =
                  book_id_seq s # [Suc (book_id_seq s) ..< book_id_seq s + length (r # rows)]"
      by (rule upt_conv_Cons)
    have v: "book_id_seq s1 + length rows = book_id_seq s + length (r # rows)"
      using bk(3) by simp
    have "map fst ((book_id_seq s, bk) # new) = book_id_seq s # map fst new" by simp
    also have "\<dots> = book_id_seq s # [Suc (book_id_seq s) ..< book_id_seq s + length (r # rows)]"
      using new(2) v bk(3) by (simp only:)
    finally show ?thesis using u by (simp only:)
  qed
  moreover have "map (\<lambda>p. Inr (snd p)) ((book_id_seq s, bk) # new) = map book_params (r # rows)"
    using bk new by simp
  ultimately show ?case by blast
qed

lemma link_authors_accepted:
  "list_all (accepts_author st) names \<Longrightarrow> \<exists>s'. link_authors st b names s = (Inr (), s')"
proof (induction names arbitrary: s)
  case Nil
  then show ?case by simp
next
  case (Cons n names)
  obtain r1 s1 where g: "get_or_create_author st n s = (r1, s1)" by force
  from Cons.prems have acc: "accepts_author st n" and rest: "list_all (accepts_author st) names"
    by simp_all
  from g acc obtain a where "r1 = Inr a" by (cases rule: author_cases) simp_all
  with g Cons.IH[OF rest, of "insert_book_author b a s1"] show ?case by simp
qed

lemma process_row_well_formed:
  assumes "well_formed st r"
  shows "\<exists>s'. process_row st r s = (Inr (), s')"
proof -
  from assms obtain bk field where bk: "book_params r = Inr bk" "accepts_book st bk"
    and f: "r ''authors'' = Some (PyStr field)" "list_all (accepts_author st) (author_names field)"
    by (auto simp: well_formed_def split: sum.splits option.splits pyval.splits)
  from link_authors_accepted[OF f(2)] obtain s4 where
    "link_authors st (book_id_seq s) (author_names field) (book_pending bk s) = (Inr (), s4)"
    by blast
  with f(1) show ?thesis unfolding process_row_accepted[OF bk] by simp
qed

lemma ingest_rows_well_formed:
  "\<forall>r \<in> set rows. well_formed st r \<Longrightarrow> \<exists>s'. ingest_rows st rows s = (Inr (), s')"
proof (induction rows arbitrary: s)
  case Nil
  then show ?case by simp
next
  case (Cons r rows)
  from Cons.prems have "well_formed st r" by simp
  then obtain s1 where p: "process_row st r s = (Inr (), s1)"
    using process_row_well_formed by blast
  from Cons.prems have "\<forall>r \<in> set rows. well_formed st r" by simp
  from Cons.IH[OF this, of s1] p show ?case by simp
qed

lemma clean_run:
  assumes c: "connect_to_database up 5 5 = (Connection, tr)"
    and k: "keys_ok (boot db a b tr)"
    and i: "fst (ingest_rows st rows
             (emit PrintLoading ((boot db a b tr)\<lparr>connection := Opened, cursor := Opened\<rparr>))) = Inr ()"
  shows "exit_status (main up st (CsvFile rows) db a b) = 0 \<and>
    length (books (committed (final (main up st (CsvFile rows) db a b)))) =
      length (books db) + length rows \<and>
    (\<exists>new. books (committed (final (main up st (CsvFile rows) db a b))) = books db @ new \<and>
           map fst new = [b ..< b + length rows] \<and>
           map (\<lambda>p. Inr (snd p)) new = map book_params rows) \<and>
    length (book_author (committed (final (main up st (CsvFile rows) db a b)))) =
      length (book_author db) + card (SIGMA i:{..<length rows}. set (mentions (rows ! i))) \<and>
    keys_ok (boot (committed (final (main up st (CsvFile rows) db a b)))
                  (author_id_seq (final (main up st (CsvFile rows) db a b)))
                  (book_id_seq (final (main up st (CsvFile rows) db a b))) tr)"
proof -
  let ?s0 = "emit PrintLoading ((boot db a b tr)\<lparr>connection := Opened, cursor := Opened\<rparr>)"
  obtain s' where r: "ingest_rows st rows ?s0 = (Inr (), s')"
    using i by (cases "ingest_rows st rows ?s0") auto
  have m: "main up st (CsvFile rows) db a b = \<lparr>exit_status = 0, final = teardown s'\<rparr>"
    using c r by (simp add: main_def load_csv_def)
  have k0: "keys_ok ?s0" using k by (simp add: keys_ok_def)
  have "committed ?s0 = working ?s0" by simp
  with r have cw: "committed s' = working s'" by (rule ingest_rows_committed)
  from ingest_rows_counts[OF r k0] have "keys_ok s'" by simp
  with cw have "keys_ok (boot (committed s') (author_id_seq s') (book_id_seq s') tr)"
    by (simp add: keys_ok_def)
  with ingest_rows_counts[OF r k0] ingest_rows_book_rows[OF r] m cw show ?thesis
    by (simp add: pairs_card)
qed

text \<open>
  Claim C3. Rows that have the eight columns, with a string under \<open>authors\<close>, and
  whose values the store takes, all go through. When every row of the file goes
  through, the run adds one book per row, whatever the tables hold already: the new
  book rows carry the next keys in order and the parameters of the rows in order. It
  adds one association per distinct pair of a row and one of its trimmed author names.
  A second run over the same file adds the same number of books again.
\<close>

theorem clean_run_row_counts:
  assumes c: "connect_to_database up 5 5 = (Connection, tr)"
    and k: "keys_ok (boot db a b tr)"
  shows
   "((\<forall>r \<in> set rows. well_formed st r) \<longrightarrow>
       fst (ingest_rows st rows
             (emit PrintLoading ((boot db a b tr)\<lparr>connection := Opened, cursor := Opened\<rparr>))) = Inr ()) \<and>
    (fst (ingest_rows st rows
             (emit PrintLoading ((boot db a b tr)\<lparr>connection := Opened, cursor := Opened\<rparr>))) = Inr () \<longrightarrow>
       exit_status (main up st (CsvFile rows) db a b) = 0 \<and>
       length (books (committed (final (main up st (CsvFile rows) db a b)))) =
         length (books db) + length rows \<and>
       (\<exists>new. books (committed (final (main up st (CsvFile rows) db a b))) = books db @ new \<and>
              map fst new = [b ..< b + length rows] \<and>
              map (\<lambda>p. Inr (snd p)) new = map book_params rows) \<and>
       length (book_author (committed (final (main up st (CsvFile rows) db a b)))) =
         length (book_author db) + card (SIGMA i:{..<length rows}. set (mentions (rows ! i)))) \<and>
    ((\<forall>r \<in> set rows. well_formed st r) \<longrightarrow>
       length (books (committed (final (main up st (CsvFile rows)
          (committed (final (main up st (CsvFile rows) db a b)))
          (author_id_seq (final (main up st (CsvFile rows) db a b)))
          (book_id_seq (final (main up st (CsvFile rows) db a b))))))) =
         length (books db) + 2 * length rows)"
proof -
  let ?m = "main up st (CsvFile rows) db a b"
  have wf: "fst (ingest_rows st rows s) = Inr ()" if "\<forall>r \<in> set rows. well_formed st r" for s
    using ingest_rows_well_formed[OF that, of s] by auto
  have 2: "length (books (committed (final (main up st (CsvFile rows)
          (committed (final ?m)) (author_id_seq (final ?m)) (book_id_seq (final ?m)))))) =
         length (books db) + 2 * length rows"
    if w: "\<forall>r \<in> set rows. well_formed st r"
  proof -
    note one = clean_run[OF c k wf[OF w]]
    then have k': "keys_ok (boot (committed (final ?m)) (author_id_seq (final ?m)) (book_id_seq (final ?m)) tr)"
      by simp
    from clean_run[OF c k' wf[OF w]] one show ?thesis by simp
  qed
  from wf clean_run[OF c k] 2 show ?thesis by blast
qed

lemma first_run:
  "final (main always_up small_store (CsvFile two_rows) empty_db 1 1) =
     \<lparr>committed = db_after_one_run, working = db_after_one_run, author_id_seq = 4, book_id_seq = 3,
      trace = trace (final (main always_up small_store (CsvFile two_rows) empty_db 1 1)),
      connection = Closed, cursor = Closed\<rparr>"
  by (simp add: run_defs)

theorem clean_run_row_counts_witness:
  "connect_to_database always_up 5 5 = (Connection, [PrintConnecting, PrintConnected]) \<and>
   keys_ok (boot empty_db 1 1 [PrintConnecting, PrintConnected]) \<and>
   list_all (well_formed small_store) two_rows \<and>
   committed (final (main always_up small_store (CsvFile two_rows) empty_db 1 1)) = db_after_one_run \<and>
   length (books db_after_one_run) = 2 \<and> length (book_author db_after_one_run) = 4 \<and>
   length (books (committed (final (main always_up small_store (CsvFile two_rows) db_after_one_run 4 3)))) = 4"
proof -
  let ?m = "main always_up small_store (CsvFile two_rows) empty_db 1 1"
  have k: "keys_ok (boot empty_db 1 1 [PrintConnecting, PrintConnected])"
    by (simp add: keys_ok_def boot_def empty_db_def)
  have w: "\<forall>r \<in> set two_rows. well_formed small_store r"
    by (simp add: two_rows_def well_formed_def run_defs)
  have f: "committed (final ?m) = db_after_one_run" "author_id_seq (final ?m) = 4"
    "book_id_seq (final ?m) = 3"
    using first_run by (metis session.select_convs(1), metis session.select_convs(3), metis session.select_convs(4))
  have l: "length (books db_after_one_run) = 2" "length (book_author db_after_one_run) = 4"
    by (simp_all add: db_after_one_run_def)
  from clean_run_row_counts[OF connect_always_up k, of two_rows small_store] w f
  have "length (books (committed (final (main always_up small_store (CsvFile two_rows) db_after_one_run 4 3)))) =
          length (books empty_db) + 2 * length two_rows"
    by simp
  with connect_always_up k w f l show ?thesis
    by (simp add: empty_db_def two_rows_def list_all_iff)
qed

subsection \<open>Resolving an author\<close>

lemma select_author_id_stable:
  "select_author_id name rs = Some a \<Longrightarrow> select_author_id name (rs @ ext) = Some a"
  by (simp add: select_author_id_append)

lemma author_table:
  assumes "get_or_create_author st name s = (Inr a, s1)"
  shows "(a, name) \<in> set (authors (working s1)) \<and>
         authors (working s1) =
           (if name \<in> snd ` set (authors (working s)) then authors (working s)
            else authors (working s) @ [(a, name)]) \<and>
         (name \<in> snd ` set (authors (working s)) \<longrightarrow> (a, name) \<in> set (authors (working s))) \<and>
         (name \<notin> snd ` set (authors (working s)) \<longrightarrow> a = author_id_seq s)"
  using assms
proof (cases rule: author_cases)
  case (found a')
  then have "(a', name) \<in> set (authors (working s))" by (auto dest: select_author_id_mem)
  moreover from this have "name \<in> snd ` set (authors (working s))" by force
  ultimately show ?thesis using found by simp
next
  case created
  then have "name \<notin> snd ` set (authors (working s))" by (simp add: select_author_id_None)
  with created show ?thesis by simp
next
  case rejected
  then show ?thesis by simp
qed

lemma named_rows_present:
  "name \<in> snd ` set rs \<Longrightarrow> 1 \<le> length (filter (\<lambda>r. snd r = name) rs)"
proof -
  assume "name \<in> snd ` set rs"
  then have "filter (\<lambda>r. snd r = name) rs \<noteq> []" by (auto simp: filter_empty_conv)
  then show ?thesis by (cases "filter (\<lambda>r. snd r = name) rs") simp_all
qed

lemma named_rows_absent:
  "name \<notin> snd ` set rs \<Longrightarrow> filter (\<lambda>r. snd r = name) rs = []"
  by (auto simp: filter_empty_conv)

text \<open>
  Claim C4. When \<^verbatim>\<open>get_or_create_author\<close> has returned an identifier for a name, the
  table holds a row with that identifier and that name, as it was passed. A second
  call with the same name returns the same identifier and only prints: it changes no
  table. The first call adds one row when no row of the table had that name, with the
  next value of the sequence as its identifier, and none otherwise, where the
  identifier is that of a row that was there; so the two calls together leave one row
  with that name when there was none, and create none when there was one. The
  identifier stays the answer for that name however the table is extended.
\<close>

theorem author_resolution_idempotent:
  "get_or_create_author st name s = (Inr a, s1) \<Longrightarrow>
     get_or_create_author st name s1 =
       (Inr a, emit (PrintAuthorExists name a) (emit (PrintGettingAuthor name) s1)) \<and>
     (a, name) \<in> set (authors (working s1)) \<and>
     authors (working s1) =
       (if name \<in> snd ` set (authors (working s)) then authors (working s)
        else authors (working s) @ [(a, name)]) \<and>
     (name \<in> snd ` set (authors (working s)) \<longrightarrow> (a, name) \<in> set (authors (working s))) \<and>
     (name \<notin> snd ` set (authors (working s)) \<longrightarrow> a = author_id_seq s) \<and>
     length (filter (\<lambda>r. snd r = name) (authors (working s1))) =
       max 1 (length (filter (\<lambda>r. snd r = name) (authors (working s)))) \<and>
     authors (working s1) =
       (if select_author_id name (authors (working s)) = None
        then authors (working s) @ [(a, name)] else authors (working s)) \<and>
     (\<forall>ext. select_author_id name (authors (working s1) @ ext) = Some a) \<and>
     (\<forall>(s2::session) ext. authors (working s2) = authors (working s1) @ ext \<longrightarrow>
        fst (get_or_create_author st name s2) = Inr a)"
proof -
  assume g: "get_or_create_author st name s = (Inr a, s1)"
  then have sel: "select_author_id name (authors (working s1)) = Some a"
    and tab: "authors (working s1) =
       (if select_author_id name (authors (working s)) = None
        then authors (working s) @ [(a, name)] else authors (working s))"
    by (cases rule: author_cases;
        simp add: select_author_id_append select_author_id_single)+
  from sel have again: "get_or_create_author st name s1 =
       (Inr a, emit (PrintAuthorExists name a) (emit (PrintGettingAuthor name) s1))"
    by (rule author_found)
  note t = author_table[OF g]
  have cnt: "length (filter (\<lambda>r. snd r = name) (authors (working s1))) =
       max 1 (length (filter (\<lambda>r. snd r = name) (authors (working s))))"
  proof (cases "name \<in> snd ` set (authors (working s))")
    case True
    with t named_rows_present[OF True] show ?thesis by simp
  next
    case False
    with t named_rows_absent[OF False] show ?thesis by simp
  qed
  have later: "\<forall>(s2::session) ext. authors (working s2) = authors (working s1) @ ext \<longrightarrow>
        fst (get_or_create_author st name s2) = Inr a"
  proof (intro allI impI)
    fix s2 :: session and ext assume "authors (working s2) = authors (working s1) @ ext"
    with sel have "select_author_id name (authors (working s2)) = Some a"
      by (simp add: select_author_id_stable)
    then show "fst (get_or_create_author st name s2) = Inr a"
      by (simp add: author_found)
  qed
  from again t cnt tab sel later show ?thesis
    by (simp add: select_author_id_stable)
qed

theorem author_resolution_idempotent_witness:
  "get_or_create_author small_store (str_of ''Bob'') ann_session =
     (Inr 2, snd (get_or_create_author small_store (str_of ''Bob'') ann_session)) \<and>
   str_of ''Bob'' \<notin> snd ` set (authors (working ann_session)) \<and>
   fst (get_or_create_author small_store (str_of ''Bob'')
          (snd (get_or_create_author small_store (str_of ''Bob'') ann_session))) = Inr 2 \<and>
   authors (working (snd (get_or_create_author small_store (str_of ''Bob'')
          (snd (get_or_create_author small_store (str_of ''Bob'') ann_session))))) =
     [(1, str_of ''Ann''), (2, str_of ''Bob'')]"
proof -
  let ?s1 = "snd (get_or_create_author small_store (str_of ''Bob'') ann_session)"
  have g: "get_or_create_author small_store (str_of ''Bob'') ann_session = (Inr 2, ?s1)"
    by (simp add: run_defs ann_session_def ann_db_def)
  have n: "str_of ''Bob'' \<notin> snd ` set (authors (working ann_session))"
    by (simp add: run_defs ann_session_def ann_db_def)
  have a: "authors (working ann_session) = [(1, str_of ''Ann'')]"
    by (simp add: run_defs ann_session_def ann_db_def)
  from author_resolution_idempotent[OF g] g n a show ?thesis
    by simp
qed

subsection \<open>Associations\<close>

lemma count_list_distinct: "distinct xs \<Longrightarrow> x \<in> set xs \<Longrightarrow> count_list xs x = 1"
  by (induction xs) (auto simp: count_list_0_iff)

lemma insert_book_author_twice:
  "insert_book_author b a (insert_book_author b a s) = insert_book_author b a s"
  by (simp add: insert_book_author_def)

lemma insert_book_author_distinct:
  "distinct (book_author (working s)) \<Longrightarrow> distinct (book_author (working (insert_book_author b a s)))"
  by (simp add: insert_book_author_def)

lemma insert_book_author_mem:
  "(b, a) \<in> set (book_author (working (insert_book_author b a s)))"
  by (simp add: insert_book_author_def)

lemma author_step_plain:
  assumes "get_or_create_author st n s = (Inr a, s1)"
  shows "select_author_id n (authors (working s1)) = Some a \<and>
         prefix (authors (working s)) (authors (working s1)) \<and>
         book_author (working s1) = book_author (working s)"
  using assms
  by (cases rule: author_cases) (simp_all add: select_author_id_append select_author_id_single)

lemma link_authors_links:
  "link_authors st b names s = (Inr u, s') \<Longrightarrow>
   prefix (authors (working s)) (authors (working s')) \<and>
   prefix (book_author (working s)) (book_author (working s')) \<and>
   (distinct (book_author (working s)) \<longrightarrow> distinct (book_author (working s'))) \<and>
   (\<forall>n \<in> set names. \<exists>a. select_author_id n (authors (working s')) = Some a \<and>
                           (b, a) \<in> set (book_author (working s')))"
proof (induction names arbitrary: s)
  case Nil
  then show ?case by simp
next
  case (Cons n names)
  obtain r1 s1 where g: "get_or_create_author st n s = (r1, s1)" by force
  with Cons.prems obtain a where r1: "r1 = Inr a" by (cases r1) auto
  let ?s2 = "insert_book_author b a s1"
  from g r1 Cons.prems have l: "link_authors st b names ?s2 = (Inr u, s')" by simp
  note ih = Cons.IH[OF l]
  from author_step_plain[OF g[unfolded r1]]
  have s1: "select_author_id n (authors (working s1)) = Some a"
    "prefix (authors (working s)) (authors (working s1))"
    "book_author (working s1) = book_author (working s)" by simp_all
  have s2: "authors (working ?s2) = authors (working s1)"
    "prefix (book_author (working s1)) (book_author (working ?s2))"
    "(b, a) \<in> set (book_author (working ?s2))"
    by (auto simp: insert_book_author_def)
  from ih have pa: "prefix (authors (working ?s2)) (authors (working s'))"
    and pb: "prefix (book_author (working ?s2)) (book_author (working s'))" by simp_all
  from s1(1) s2(1) pa have sel: "select_author_id n (authors (working s')) = Some a"
    by (auto intro: select_author_id_prefix)
  from pb s2(3) have mem: "(b, a) \<in> set (book_author (working s'))"
    by (auto simp: prefix_def)
  have "prefix (authors (working s)) (authors (working s'))"
    using s1(2) s2(1) pa by (metis prefix_order.trans)
  moreover have "prefix (book_author (working s)) (book_author (working s'))"
    using s1(3) s2(2) pb by (metis prefix_order.trans)
  moreover have "distinct (book_author (working s)) \<longrightarrow> distinct (book_author (working s'))"
    using ih s1(3) insert_book_author_distinct[of s1 b a] by simp
  moreover have "\<forall>m \<in> set (n # names). \<exists>a. select_author_id m (authors (working s')) = Some a \<and>
                           (b, a) \<in> set (book_author (working s'))"
    using ih sel mem by simp
  ultimately show ?case by blast
qed

text \<open>
  Claim C5. Inserting the same association a second time changes nothing. In a table
  that satisfies the unique constraint, the pair is there exactly once after the two
  inserts, and the constraint still holds. The same is true of the loop over the names
  of a row, also when a name occurs twice: afterwards every name of the row is linked
  to the book by exactly one row.
\<close>

theorem association_insert_idempotent:
  "insert_book_author b a (insert_book_author b a s) = insert_book_author b a s \<and>
   (distinct (book_author (working s)) \<longrightarrow>
      distinct (book_author (working (insert_book_author b a s))) \<and>
      count_list (book_author (working (insert_book_author b a (insert_book_author b a s)))) (b, a) = 1) \<and>
   (distinct (book_author (working s)) \<and> link_authors st b names s = (Inr u, s') \<longrightarrow>
      distinct (book_author (working s')) \<and>
      (\<forall>n \<in> set names. \<exists>a. select_author_id n (authors (working s')) = Some a \<and>
                              count_list (book_author (working s')) (b, a) = 1))"
proof -
  have 1: "insert_book_author b a (insert_book_author b a s) = insert_book_author b a s"
    by (rule insert_book_author_twice)
  have 2: "distinct (book_author (working s)) \<longrightarrow>
      distinct (book_author (working (insert_book_author b a s))) \<and>
      count_list (book_author (working (insert_book_author b a (insert_book_author b a s)))) (b, a) = 1"
    by (simp add: insert_book_author_twice insert_book_author_distinct insert_book_author_mem
          count_list_distinct)
  have 3: "distinct (book_author (working s)) \<and> link_authors st b names s = (Inr u, s') \<longrightarrow>
      distinct (book_author (working s')) \<and>
      (\<forall>n \<in> set names. \<exists>a. select_author_id n (authors (working s')) = Some a \<and>
                              count_list (book_author (working s')) (b, a) = 1)"
  proof (intro impI, elim conjE)
    assume d: "distinct (book_author (working s))" and l: "link_authors st b names s = (Inr u, s')"
    note lk = link_authors_links[OF l]
    from lk d have d': "distinct (book_author (working s'))" by simp
    moreover have "\<forall>n \<in> set names. \<exists>a. select_author_id n (authors (working s')) = Some a \<and>
                              count_list (book_author (working s')) (b, a) = 1"
      using lk d' by (meson count_list_distinct)
    ultimately show "distinct (book_author (working s')) \<and>
      (\<forall>n \<in> set names. \<exists>a. select_author_id n (authors (working s')) = Some a \<and>
                              count_list (book_author (working s')) (b, a) = 1)" by simp
  qed
  from 1 2 3 show ?thesis by blast
qed

theorem association_insert_idempotent_witness:
  "distinct (book_author (working fresh_session)) \<and>
   fst (link_authors small_store 7 [str_of ''Ann'', str_of ''Ann''] fresh_session) = Inr () \<and>
   book_author (working (insert_book_author 7 3 (insert_book_author 7 3 fresh_session))) = [(7, 3)] \<and>
   book_author (working (snd (link_authors small_store 7 [str_of ''Ann'', str_of ''Ann''] fresh_session))) =
     [(7, 1)]"
proof -
  let ?s' = "snd (link_authors small_store 7 [str_of ''Ann'', str_of ''Ann''] fresh_session)"
  have d: "distinct (book_author (working fresh_session))" by (simp add: run_defs)
  have l: "link_authors small_store 7 [str_of ''Ann'', str_of ''Ann''] fresh_session = (Inr (), ?s')"
    by (simp add: run_defs prod_eq_iff)
  have v: "book_author (working ?s') = [(7, 1)]"
    "book_author (working (insert_book_author 7 3 fresh_session)) = [(7, 3)]"
    by (simp_all add: run_defs)
  have f: "fst (link_authors small_store 7 [str_of ''Ann'', str_of ''Ann''] fresh_session) = Inr ()"
    by (simp add: run_defs)
  from association_insert_idempotent[of 7 3 fresh_session small_store "[str_of ''Ann'', str_of ''Ann'']" "()" ?s']
    d l v f
  show ?thesis by (simp del: link_authors.simps)
qed

subsection \<open>Splitting the authors field\<close>

lemma split_on_nonempty: "split_on sep s \<noteq> []"
  by (induction s) (auto split: list.splits)

lemma split_on_length: "length (split_on sep s) = Suc (count_list s sep)"
  by (induction s) (auto split: list.splits simp: split_on_nonempty)

lemma split_on_join: "concat (map ((#) sep) (split_on sep s)) = sep # s"
  by (induction s) (auto split: list.splits)

lemma split_on_no_sep: "p \<in> set (split_on sep s) \<Longrightarrow> sep \<notin> set p"
  by (induction s arbitrary: p) (auto split: list.splits if_splits)

lemma strip_tail:
  "dropWhile isspace s =
     strip s @ rev (takeWhile isspace (rev (dropWhile isspace s)))"
proof -
  let ?ys = "dropWhile isspace s"
  have "?ys = rev (takeWhile isspace (rev ?ys) @ dropWhile isspace (rev ?ys))"
    by (simp only: takeWhile_dropWhile_id rev_rev_ident)
  also have "\<dots> = rev (dropWhile isspace (rev ?ys)) @ rev (takeWhile isspace (rev ?ys))"
    by (simp only: rev_append)
  finally show ?thesis by (simp only: strip_def)
qed

lemma strip_decomp:
  "\<exists>lead trail. s = lead @ strip s @ trail \<and> (\<forall>c \<in> set lead. isspace c) \<and> (\<forall>c \<in> set trail. isspace c)"
proof -
  let ?ys = "dropWhile isspace s"
  let ?lead = "takeWhile isspace s"
  let ?trail = "rev (takeWhile isspace (rev ?ys))"
  have "?ys = strip s @ ?trail" by (rule strip_tail)
  moreover have "s = ?lead @ ?ys" by simp
  ultimately have "s = ?lead @ strip s @ ?trail" by simp
  moreover have "\<forall>c \<in> set ?lead. isspace c" by (auto dest: set_takeWhileD)
  moreover have "\<forall>c \<in> set ?trail. isspace c" by (auto dest: set_takeWhileD)
  ultimately show ?thesis by blast
qed

lemma strip_ends:
  assumes "strip s \<noteq> []"
  shows "\<not> isspace (hd (strip s)) \<and> \<not> isspace (last (strip s))"
proof -
  let ?ys = "dropWhile isspace s"
  let ?zs = "dropWhile isspace (rev ?ys)"
  from assms have z: "?zs \<noteq> []" by (simp add: strip_def)
  then have l: "\<not> isspace (hd ?zs)" by (rule hd_dropWhile)
  have "last (strip s) = hd ?zs" using z by (simp add: strip_def last_rev)
  with l have 1: "\<not> isspace (last (strip s))" by simp
  have y: "?ys = strip s @ rev (takeWhile isspace (rev ?ys))" by (rule strip_tail)
  with assms have "?ys \<noteq> []" by (metis Nil_is_append_conv)
  then have "\<not> isspace (hd ?ys)" by (rule hd_dropWhile)
  moreover from y assms have "hd ?ys = hd (strip s)" by (metis hd_append2)
  ultimately have 2: "\<not> isspace (hd (strip s))" by simp
  from 1 2 show ?thesis by simp
qed

lemma jane_john:
  "author_names (str_of ''Jane Doe, John Smith'') = [str_of ''Jane Doe'', str_of ''John Smith'']"
  by (simp add: author_names_def str_of_def comma_def strip_def isspace_def)

lemma insert_book_author_new:
  "(b, a) \<notin> set (book_author (working s)) \<Longrightarrow>
   book_author (working (insert_book_author b a s)) = book_author (working s) @ [(b, a)]"
  by (simp add: insert_book_author_def)

lemma link_one:
  assumes k: "keys_ok s" and b: "b < book_id_seq s"
    and fresh: "\<forall>p \<in> set (book_author (working s)). fst p \<noteq> b"
    and l: "link_authors st b [n] s = (Inr u, s')"
  shows "\<exists>a. select_author_id n (authors (working s')) = Some a \<and>
           authors (working s') =
             (if select_author_id n (authors (working s)) = None
              then authors (working s) @ [(a, n)] else authors (working s)) \<and>
           book_author (working s') = book_author (working s) @ [(b, a)]"
proof -
  obtain r1 s1 where g: "get_or_create_author st n s = (r1, s1)" by force
  with l obtain a where r1: "r1 = Inr a" by (cases r1) auto
  from g r1 l have s': "s' = insert_book_author b a s1" by simp
  from g[unfolded r1] have tab: "authors (working s1) =
       (if select_author_id n (authors (working s)) = None
        then authors (working s) @ [(a, n)] else authors (working s))"
    by (cases rule: author_cases) simp_all
  from author_step[OF g[unfolded r1] k]
  have st1: "select_author_id n (authors (working s1)) = Some a"
    "book_author (working s1) = book_author (working s)" by simp_all
  from fresh st1(2) have "(b, a) \<notin> set (book_author (working s1))" by auto
  then have "book_author (working s') = book_author (working s) @ [(b, a)]"
    using s' st1(2) by (simp add: insert_book_author_new)
  moreover have "authors (working s') = authors (working s1)"
    using s' by (simp add: insert_book_author_def)
  ultimately show ?thesis using st1(1) tab by simp
qed

lemma link_two:
  assumes k: "keys_ok s" and b: "b < book_id_seq s"
    and fresh: "\<forall>p \<in> set (book_author (working s)). fst p \<noteq> b"
    and ne: "n1 \<noteq> n2"
    and l: "link_authors st b [n1, n2] s = (Inr u, s')"
  shows "\<exists>a1 a2. a1 \<noteq> a2 \<and> select_author_id n1 (authors (working s')) = Some a1 \<and>
           select_author_id n2 (authors (working s')) = Some a2 \<and>
           book_author (working s') = book_author (working s) @ [(b, a1), (b, a2)]"
proof -
  obtain r1 s1 where g1: "get_or_create_author st n1 s = (r1, s1)" by force
  with l obtain a1 where r1: "r1 = Inr a1" by (cases r1) auto
  let ?s2 = "insert_book_author b a1 s1"
  from g1 r1 l have l2: "link_authors st b [n2] ?s2 = (Inr u, s')" by simp
  from author_step[OF g1[unfolded r1] k]
  have st1: "keys_ok s1" "select_author_id n1 (authors (working s1)) = Some a1"
    "book_author (working s1) = book_author (working s)" "book_id_seq s1 = book_id_seq s"
    by simp_all
  from fresh st1(3) have "(b, a1) \<notin> set (book_author (working s1))" by auto
  then have ba2: "book_author (working ?s2) = book_author (working s) @ [(b, a1)]"
    using st1(3) by (simp add: insert_book_author_new)
  from b st1(4) have b1: "b < book_id_seq s1" by simp
  note as = assoc_step[OF st1(1) b1, of a1]
  from as(6) b1 have b2: "b < book_id_seq ?s2" by simp
  note lk = link_authors_keys[OF l2 as(1) b2]
  from lk have k': "keys_ok s'" and pa: "prefix (authors (working ?s2)) (authors (working s'))"
    by simp_all
  from st1(2) as(4) pa have sel1: "select_author_id n1 (authors (working s')) = Some a1"
    by (auto intro: select_author_id_prefix)
  obtain r3 s3 where g3: "get_or_create_author st n2 ?s2 = (r3, s3)" by force
  with l2 obtain a2 where r3: "r3 = Inr a2" by (cases r3) auto
  from g3 r3 l2 have s': "s' = insert_book_author b a2 s3" by simp
  from author_step[OF g3[unfolded r3] as(1)]
  have st3: "select_author_id n2 (authors (working s3)) = Some a2"
    "book_author (working s3) = book_author (working ?s2)" by simp_all
  have a3: "authors (working s') = authors (working s3)"
    using s' by (simp add: insert_book_author_def)
  with st3(1) have sel2: "select_author_id n2 (authors (working s')) = Some a2" by simp
  from k' have "distinct (map fst (authors (working s')))" by (simp add: keys_ok_def)
  with sel1 sel2 ne have neq: "a1 \<noteq> a2" by (auto dest: select_author_id_inj)
  with fresh ba2 st3(2) have "(b, a2) \<notin> set (book_author (working s3))" by auto
  then have "book_author (working s') = book_author (working s) @ [(b, a1), (b, a2)]"
    using s' st3(2) ba2 by (simp add: insert_book_author_new)
  with neq sel1 sel2 show ?thesis by blast
qed

lemma process_row_links:
  assumes p: "process_row st r s = (Inr u, s')" and k: "keys_ok s"
    and f: "r ''authors'' = Some (PyStr field)"
  obtains bk s4 where "keys_ok (book_pending bk s)" "book_id_seq s < book_id_seq (book_pending bk s)"
    "\<forall>p \<in> set (book_author (working (book_pending bk s))). fst p \<noteq> book_id_seq s"
    "link_authors st (book_id_seq s) (author_names field) (book_pending bk s) = (Inr (), s4)"
    "s' = commit s4"
  using p
proof (cases rule: process_row_success)
  case (1 bk field' s4)
  with f have "field' = field" by simp
  moreover have "keys_ok (book_pending bk s)" using k by (rule keys_ok_book_pending)
  moreover have "\<forall>p \<in> set (book_author (working (book_pending bk s))). fst p \<noteq> book_id_seq s"
    using k by (auto simp: keys_ok_def)
  ultimately show ?thesis using 1 that[of bk s4] by simp
qed

text \<open>
  Claim C6. The names of a row are the pieces of the \<open>authors\<close> field between its
  commas, each with the whitespace at its two ends removed: joining the pieces with
  commas gives the field back, there is one piece more than there are commas, what
  \<open>strip\<close> removes from a piece is whitespace before and after, and what it leaves
  neither starts nor ends with whitespace. Each name is resolved once, in order. For the
  field \<^verbatim>\<open>Jane Doe, John Smith\<close> the names are \<^verbatim>\<open>Jane Doe\<close> and
  \<^verbatim>\<open>John Smith\<close>, and the row adds two associations for its book, to two different
  authors.
\<close>

theorem authors_field_split_and_trimmed:
  "author_names field = map strip (split_on comma field) \<and>
   concat (map ((#) comma) (split_on comma field)) = comma # field \<and>
   length (author_names field) = Suc (count_list field comma) \<and>
   (\<exists>lead trail. p = lead @ strip p @ trail \<and> (\<forall>c \<in> set lead. isspace c) \<and>
                 (\<forall>c \<in> set trail. isspace c)) \<and>
   (strip p \<noteq> [] \<longrightarrow> \<not> isspace (hd (strip p)) \<and> \<not> isspace (last (strip p))) \<and>
   (r ''authors'' = Some (PyStr field) \<and> keys_ok s \<and> process_row st r s = (Inr u, s') \<longrightarrow>
      resolutions (trace s') = resolutions (trace s) @ author_names field) \<and>
   author_names (str_of ''Jane Doe, John Smith'') = [str_of ''Jane Doe'', str_of ''John Smith''] \<and>
   (r ''authors'' = Some (PyStr (str_of ''Jane Doe, John Smith'')) \<and> keys_ok s \<and>
    process_row st r s = (Inr u, s') \<longrightarrow>
      resolutions (trace s') = resolutions (trace s) @ [str_of ''Jane Doe'', str_of ''John Smith''] \<and>
      (\<exists>a1 a2. a1 \<noteq> a2 \<and>
         select_author_id (str_of ''Jane Doe'') (authors (working s')) = Some a1 \<and>
         select_author_id (str_of ''John Smith'') (authors (working s')) = Some a2 \<and>
         book_author (working s') =
           book_author (working s) @ [(book_id_seq s, a1), (book_id_seq s, a2)]))"
proof -
  have res: "resolutions (trace s') = resolutions (trace s) @ author_names fld"
    if "r ''authors'' = Some (PyStr fld)" "keys_ok s" "process_row st r s = (Inr u, s')" for fld
    using that(3,2,1)
  proof (cases rule: process_row_links)
    case (1 bk s4)
    from link_authors_keys[OF 1(4) 1(1) 1(2)] 1(5) show ?thesis
      by (simp add: resolutions_append)
  qed
  have two: "\<exists>a1 a2. a1 \<noteq> a2 \<and>
         select_author_id (str_of ''Jane Doe'') (authors (working s')) = Some a1 \<and>
         select_author_id (str_of ''John Smith'') (authors (working s')) = Some a2 \<and>
         book_author (working s') =
           book_author (working s) @ [(book_id_seq s, a1), (book_id_seq s, a2)]"
    if "r ''authors'' = Some (PyStr (str_of ''Jane Doe, John Smith''))" "keys_ok s"
      "process_row st r s = (Inr u, s')"
    using that(3,2,1)
  proof (cases rule: process_row_links)
    case (1 bk s4)
    have ne: "str_of ''Jane Doe'' \<noteq> str_of ''John Smith''" by (simp add: str_of_def)
    from link_two[OF 1(1) 1(2) 1(3) ne 1(4)[unfolded jane_john]] 1(5) show ?thesis by simp
  qed
  show ?thesis
    using res[of field] res[of "str_of ''Jane Doe, John Smith''"] two
    by (simp add: split_on_join split_on_length strip_decomp strip_ends jane_john)
      (simp add: author_names_def split_on_length)
qed

theorem authors_field_split_and_trimmed_witness:
  "sample_row ''Jane Doe, John Smith'' ''authors'' = Some (PyStr (str_of ''Jane Doe, John Smith'')) \<and>
   keys_ok fresh_session \<and>
   fst (process_row small_store (sample_row ''Jane Doe, John Smith'') fresh_session) = Inr () \<and>
   strip (str_of '' John Smith'') = str_of ''John Smith'' \<and>
   resolutions (trace (snd (process_row small_store (sample_row ''Jane Doe, John Smith'') fresh_session))) =
     [str_of ''Jane Doe'', str_of ''John Smith''] \<and>
   authors (working (snd (process_row small_store (sample_row ''Jane Doe, John Smith'') fresh_session))) =
     [(1, str_of ''Jane Doe''), (2, str_of ''John Smith'')] \<and>
   book_author (working (snd (process_row small_store (sample_row ''Jane Doe, John Smith'') fresh_session))) =
     [(1, 1), (1, 2)]"
proof -
  let ?r = "sample_row ''Jane Doe, John Smith''"
  let ?s' = "snd (process_row small_store ?r fresh_session)"
  have a: "?r ''authors'' = Some (PyStr (str_of ''Jane Doe, John Smith''))"
    by (simp add: sample_row_def)
  have k: "keys_ok fresh_session" by (simp add: run_defs)
  have f: "fst (process_row small_store ?r fresh_session) = Inr ()" by (simp add: run_defs)
  then have p: "process_row small_store ?r fresh_session = (Inr (), ?s')"
    by (simp add: prod_eq_iff)
  have t: "authors (working ?s') = [(1, str_of ''Jane Doe''), (2, str_of ''John Smith'')]"
    by (simp add: run_defs)
  have st: "strip (str_of '' John Smith'') = str_of ''John Smith''"
    by (simp add: strip_def str_of_def isspace_def)
  have z: "resolutions (trace fresh_session) = []" "book_author (working fresh_session) = []"
    "book_id_seq fresh_session = 1"
    by (simp_all add: fresh_session_def empty_db_def)
  have sel: "select_author_id (str_of ''Jane Doe'') [(1, str_of ''Jane Doe''), (2, str_of ''John Smith'')] = Some 1"
    "select_author_id (str_of ''John Smith'') [(1, str_of ''Jane Doe''), (2, str_of ''John Smith'')] = Some 2"
    by (simp_all add: select_author_id_def str_of_def)
  from authors_field_split_and_trimmed[of "str_of ''Jane Doe, John Smith''" "str_of '' John Smith''"
      ?r fresh_session small_store "()" ?s'] a k p
  have "resolutions (trace ?s') = resolutions (trace fresh_session) @ [str_of ''Jane Doe'', str_of ''John Smith'']"
    and "\<exists>a1 a2. a1 \<noteq> a2 \<and>
         select_author_id (str_of ''Jane Doe'') (authors (working ?s')) = Some a1 \<and>
         select_author_id (str_of ''John Smith'') (authors (working ?s')) = Some a2 \<and>
         book_author (working ?s') =
           book_author (working fresh_session) @ [(book_id_seq fresh_session, a1), (book_id_seq fresh_session, a2)]"
    by blast+
  with a k f t st z sel show ?thesis by auto
qed

subsection \<open>An empty authors field\<close>

text \<open>
  Claim C10. An empty \<open>authors\<close> field splits into one empty name. The row resolves
  this one name: when no row of the authors table has the empty name, a row with the
  empty name is created under the next value of the sequence; in both cases the table
  then holds a row with the empty name, and the book is linked to the identifier of
  that row by one association.
\<close>

theorem empty_authors_field:
  "author_names [] = [[]] \<and>
   (r ''authors'' = Some (PyStr []) \<and> keys_ok s \<and> process_row st r s = (Inr u, s') \<longrightarrow>
      resolutions (trace s') = resolutions (trace s) @ [[]] \<and>
      (\<exists>a. (a, []) \<in> set (authors (working s')) \<and>
           authors (working s') =
             (if [] \<in> snd ` set (authors (working s)) then authors (working s)
              else authors (working s) @ [(a, [])]) \<and>
           ([] \<in> snd ` set (authors (working s)) \<longrightarrow> (a, []) \<in> set (authors (working s))) \<and>
           ([] \<notin> snd ` set (authors (working s)) \<longrightarrow> a = author_id_seq s) \<and>
           select_author_id [] (authors (working s')) = Some a \<and>
           authors (working s') =
             (if select_author_id [] (authors (working s)) = None
              then authors (working s) @ [(a, [])] else authors (working s)) \<and>
           book_author (working s') = book_author (working s) @ [(book_id_seq s, a)]))"
proof -
  have e: "author_names [] = [[]]" by (simp add: author_names_def strip_def)
  have "resolutions (trace s') = resolutions (trace s) @ [[]] \<and>
      (\<exists>a. (a, []) \<in> set (authors (working s')) \<and>
           authors (working s') =
             (if [] \<in> snd ` set (authors (working s)) then authors (working s)
              else authors (working s) @ [(a, [])]) \<and>
           ([] \<in> snd ` set (authors (working s)) \<longrightarrow> (a, []) \<in> set (authors (working s))) \<and>
           ([] \<notin> snd ` set (authors (working s)) \<longrightarrow> a = author_id_seq s) \<and>
           select_author_id [] (authors (working s')) = Some a \<and>
           authors (working s') =
             (if select_author_id [] (authors (working s)) = None
              then authors (working s) @ [(a, [])] else authors (working s)) \<and>
           book_author (working s') = book_author (working s) @ [(book_id_seq s, a)])"
    if "r ''authors'' = Some (PyStr [])" "keys_ok s" "process_row st r s = (Inr u, s')"
    using that(3,2,1)
  proof (cases rule: process_row_links)
    case (1 bk s4)
    let ?s3 = "book_pending bk s"
    from link_authors_keys[OF 1(4) 1(1) 1(2)] 1(5) e
    have res: "resolutions (trace s') = resolutions (trace s) @ [[]]"
      by (simp add: resolutions_append)
    obtain r1 s1 where g: "get_or_create_author st [] ?s3 = (r1, s1)" by force
    with 1(4) e obtain a where r1: "r1 = Inr a" by (cases r1) auto
    from g r1 1(4) e have s4: "s4 = insert_book_author (book_id_seq s) a s1" by simp
    note t = author_table[OF g[unfolded r1]]
    have a4: "authors (working s') = authors (working s1)"
      using s4 1(5) by (simp add: insert_book_author_def)
    from link_one[OF 1(1) 1(2) 1(3) 1(4)[unfolded e]] obtain a' where
      l: "select_author_id [] (authors (working s4)) = Some a'"
        "authors (working s4) =
           (if select_author_id [] (authors (working ?s3)) = None
            then authors (working ?s3) @ [(a', [])] else authors (working ?s3))"
        "book_author (working s4) = book_author (working ?s3) @ [(book_id_seq s, a')]"
      by blast
    from author_step[OF g[unfolded r1] 1(1)] have "select_author_id [] (authors (working s1)) = Some a"
      by simp
    with l(1) a4 1(5) have aa: "a' = a" by simp
    have "(a, []) \<in> set (authors (working s')) \<and>
           authors (working s') =
             (if [] \<in> snd ` set (authors (working s)) then authors (working s)
              else authors (working s) @ [(a, [])]) \<and>
           ([] \<in> snd ` set (authors (working s)) \<longrightarrow> (a, []) \<in> set (authors (working s))) \<and>
           ([] \<notin> snd ` set (authors (working s)) \<longrightarrow> a = author_id_seq s)"
      using t a4 by simp
    moreover have "select_author_id [] (authors (working s')) = Some a \<and>
           authors (working s') =
             (if select_author_id [] (authors (working s)) = None
              then authors (working s) @ [(a, [])] else authors (working s)) \<and>
           book_author (working s') = book_author (working s) @ [(book_id_seq s, a)]"
      using l aa 1(5) by (cases "select_author_id [] (authors (working s))") auto
    ultimately show ?thesis using res by blast
  qed
  with e show ?thesis by blast
qed

theorem empty_authors_field_witness:
  "sample_row [] ''authors'' = Some (PyStr []) \<and> keys_ok ann_session \<and>
   [] \<notin> snd ` set (authors (working ann_session)) \<and>
   fst (process_row small_store (sample_row []) ann_session) = Inr () \<and>
   resolutions (trace (snd (process_row small_store (sample_row []) ann_session))) = [[]] \<and>
   authors (working (snd (process_row small_store (sample_row []) ann_session))) =
     [(1, str_of ''Ann''), (2, [])] \<and>
   book_author (working (snd (process_row small_store (sample_row []) ann_session))) = [(1, 2)]"
proof -
  let ?r = "sample_row []"
  let ?s' = "snd (process_row small_store ?r ann_session)"
  have a: "?r ''authors'' = Some (PyStr [])" by (simp add: sample_row_def str_of_def)
  have k: "keys_ok ann_session" by (simp add: run_defs ann_session_def ann_db_def)
  have n: "[] \<notin> snd ` set (authors (working ann_session))"
    by (simp add: run_defs ann_session_def ann_db_def)
  have f: "fst (process_row small_store ?r ann_session) = Inr ()"
    by (simp add: run_defs ann_session_def ann_db_def)
  then have p: "process_row small_store ?r ann_session = (Inr (), ?s')"
    by (simp add: prod_eq_iff)
  have z: "resolutions (trace ann_session) = []" "book_author (working ann_session) = []"
    "book_id_seq ann_session = 1" "authors (working ann_session) = [(1, str_of ''Ann'')]"
    "author_id_seq ann_session = 2"
    by (simp_all add: ann_session_def ann_db_def)
  from empty_authors_field[of ?r ann_session small_store "()" ?s'] a k p
  have "resolutions (trace ?s') = resolutions (trace ann_session) @ [[]]"
    and "\<exists>a. authors (working ?s') =
             (if [] \<in> snd ` set (authors (working ann_session)) then authors (working ann_session)
              else authors (working ann_session) @ [(a, [])]) \<and>
           ([] \<notin> snd ` set (authors (working ann_session)) \<longrightarrow> a = author_id_seq ann_session) \<and>
           book_author (working ?s') = book_author (working ann_session) @ [(book_id_seq ann_session, a)]"
    by blast+
  with a k n f z show ?thesis by auto
qed

subsection \<open>Commits\<close>

text \<open>
  Claim C1 says that the book insert of a row and its associations are committed
  together at the end of the row, and that the author insert commits on its own, apart
  from the transaction of the book. The module has one connection, and the resolver
  commits on it. In the run below the store takes the first author of the row and
  refuses the second: the association of the book with the first author is inserted
  and then lost, while the book itself stays committed, without any association. It is
  the commit of the resolver that publishes the book.
\<close>

theorem row_not_one_transaction_counterexample:
  "fst (process_row small_store long_name_row fresh_session) = Inl StoreError \<and>
   books (working (snd (process_row small_store long_name_row fresh_session))) = [(1, sample_book)] \<and>
   book_author (working (snd (process_row small_store long_name_row fresh_session))) = [(1, 1)] \<and>
   committed (final (main always_up small_store (CsvFile [long_name_row]) empty_db 1 1)) =
     \<lparr>authors = [(1, str_of ''Ann'')], books = [(1, sample_book)], book_author = []\<rparr> \<and>
   committed (snd (get_or_create_author small_store (str_of ''Ann'')
                (book_pending sample_book fresh_session))) =
     \<lparr>authors = [(1, str_of ''Ann'')], books = [(1, sample_book)], book_author = []\<rparr>"
  by (simp add: run_defs long_name_row_def)

lemma author_commit:
  assumes "get_or_create_author st name s = (Inr a, s1)"
  shows "(select_author_id name (authors (working s)) = None \<longrightarrow>
            working s1 = (working s)\<lparr>authors := authors (working s) @ [(a, name)]\<rparr> \<and>
            committed s1 = working s1) \<and>
         (select_author_id name (authors (working s)) \<noteq> None \<longrightarrow>
            working s1 = working s \<and> committed s1 = committed s)"
  using assms by (cases rule: author_cases) simp_all

text \<open>
  Claim C1, amended. A row that goes through ends with a commit, so that nothing of it
  is pending afterwards. When the resolver creates an author it commits on the same
  connection: everything pending at that moment is committed with the new author row,
  the book insert of the row included. When it finds the author it commits nothing. A
  created author stays committed when a later step of the row fails, and so does what
  was pending when it was created.
\<close>

theorem commits_on_one_connection:
  "(process_row st r s = (Inr u, s') \<longrightarrow> committed s' = working s') \<and>
   (get_or_create_author st name s = (Inr a, s1) \<and>
    select_author_id name (authors (working s)) = None \<longrightarrow>
      working s1 = (working s)\<lparr>authors := authors (working s) @ [(a, name)]\<rparr> \<and>
      committed s1 = working s1) \<and>
   (get_or_create_author st name s = (Inr a, s1) \<and>
    select_author_id name (authors (working s)) \<noteq> None \<longrightarrow>
      working s1 = working s \<and> committed s1 = committed s) \<and>
   (get_or_create_author st name s = (Inr a, s1) \<and>
    select_author_id name (authors (working s)) = None \<and>
    link_authors st b rest (insert_book_author b a s1) = (Inl e, s2) \<longrightarrow>
      (a, name) \<in> set (authors (committed (teardown (handler e s2)))) \<and>
      prefix (books (working s)) (books (committed (teardown (handler e s2)))) \<and>
      prefix (book_author (working s)) (book_author (committed (teardown (handler e s2)))))"
proof -
  have 1: "process_row st r s = (Inr u, s') \<longrightarrow> committed s' = working s'"
    by (auto elim!: process_row_success)
  have 2: "get_or_create_author st name s = (Inr a, s1) \<and>
    select_author_id name (authors (working s)) = None \<longrightarrow>
      working s1 = (working s)\<lparr>authors := authors (working s) @ [(a, name)]\<rparr> \<and>
      committed s1 = working s1"
    using author_commit by blast
  have 3: "get_or_create_author st name s = (Inr a, s1) \<and>
    select_author_id name (authors (working s)) \<noteq> None \<longrightarrow>
      working s1 = working s \<and> committed s1 = committed s"
    using author_commit by blast
  have 4: "(a, name) \<in> set (authors (committed (teardown (handler e s2)))) \<and>
      prefix (books (working s)) (books (committed (teardown (handler e s2)))) \<and>
      prefix (book_author (working s)) (book_author (committed (teardown (handler e s2))))"
    if g: "get_or_create_author st name s = (Inr a, s1)"
      and n: "select_author_id name (authors (working s)) = None"
      and l: "link_authors st b rest (insert_book_author b a s1) = (Inl e, s2)"
  proof -
    from author_commit[OF g] n
    have w: "working s1 = (working s)\<lparr>authors := authors (working s) @ [(a, name)]\<rparr>"
      and c: "committed s1 = working s1" by simp_all
    from c have "extends (committed s1) (working s1)" by simp
    then have g1: "grows s1 (insert_book_author b a s1)" by (rule grows_insert_book_author)
    from grows_link_authors[OF grows_inv[OF g1] l] g1 have "grows s1 s2" by (rule grows_trans[rotated])
    then have "extends (committed s1) (committed s2)" by (simp add: grows_def)
    with c w have "prefix (authors (working s) @ [(a, name)]) (authors (committed s2))"
      "prefix (books (working s)) (books (committed s2))"
      "prefix (book_author (working s)) (book_author (committed s2))"
      by (simp_all add: extends_def)
    then show ?thesis by (auto simp: prefix_def)
  qed
  from 1 2 3 4 show ?thesis by blast
qed

theorem commits_on_one_connection_witness:
  "fst (process_row small_store (sample_row ''Ann'') fresh_session) = Inr () \<and>
   committed (snd (process_row small_store (sample_row ''Ann'') fresh_session)) =
     \<lparr>authors = [(1, str_of ''Ann'')], books = [(1, sample_book)], book_author = [(1, 1)]\<rparr> \<and>
   select_author_id (str_of ''Ann'') (authors (working (book_pending sample_book fresh_session))) = None \<and>
   fst (get_or_create_author small_store (str_of ''Ann'') (book_pending sample_book fresh_session)) = Inr 1 \<and>
   fst (link_authors small_store 1 [str_of ''Bartholomew Roberts'']
          (insert_book_author 1 1
             (snd (get_or_create_author small_store (str_of ''Ann'')
                     (book_pending sample_book fresh_session))))) = Inl StoreError \<and>
   (1, str_of ''Ann'') \<in> set (authors (committed (teardown (handler StoreError
      (snd (link_authors small_store 1 [str_of ''Bartholomew Roberts'']
          (insert_book_author 1 1
             (snd (get_or_create_author small_store (str_of ''Ann'')
                     (book_pending sample_book fresh_session)))))))))) \<and>
   books (committed (teardown (handler StoreError
      (snd (link_authors small_store 1 [str_of ''Bartholomew Roberts'']
          (insert_book_author 1 1
             (snd (get_or_create_author small_store (str_of ''Ann'')
                     (book_pending sample_book fresh_session))))))))) = [(1, sample_book)] \<and>
   select_author_id (str_of ''Ann'') (authors (working
      (snd (get_or_create_author small_store (str_of ''Ann'')
              (book_pending sample_book fresh_session))))) \<noteq> None \<and>
   fst (get_or_create_author small_store (str_of ''Ann'')
      (snd (get_or_create_author small_store (str_of ''Ann'')
              (book_pending sample_book fresh_session)))) = Inr 1 \<and>
   committed (snd (get_or_create_author small_store (str_of ''Ann'')
      (snd (get_or_create_author small_store (str_of ''Ann'')
              (book_pending sample_book fresh_session))))) =
     committed (snd (get_or_create_author small_store (str_of ''Ann'')
              (book_pending sample_book fresh_session)))"
proof -
  let ?r = "sample_row ''Ann''"
  let ?s = "book_pending sample_book fresh_session"
  let ?s1 = "snd (get_or_create_author small_store (str_of ''Ann'') ?s)"
  let ?s2 = "snd (link_authors small_store 1 [str_of ''Bartholomew Roberts''] (insert_book_author 1 1 ?s1))"
  let ?s3 = "snd (get_or_create_author small_store (str_of ''Ann'') ?s1)"
  have f1: "fst (process_row small_store ?r fresh_session) = Inr ()" by (simp add: run_defs)
  then have p: "process_row small_store ?r fresh_session =
                  (Inr (), snd (process_row small_store ?r fresh_session))"
    by (simp add: prod_eq_iff)
  have w: "working (snd (process_row small_store ?r fresh_session)) =
     \<lparr>authors = [(1, str_of ''Ann'')], books = [(1, sample_book)], book_author = [(1, 1)]\<rparr>"
    by (simp add: run_defs)
  have n: "select_author_id (str_of ''Ann'') (authors (working ?s)) = None" by (simp add: run_defs)
  have f2: "fst (get_or_create_author small_store (str_of ''Ann'') ?s) = Inr 1"
    by (simp add: run_defs)
  then have g: "get_or_create_author small_store (str_of ''Ann'') ?s = (Inr 1, ?s1)"
    by (simp add: prod_eq_iff)
  have f3: "fst (link_authors small_store 1 [str_of ''Bartholomew Roberts''] (insert_book_author 1 1 ?s1)) =
              Inl StoreError"
    by (simp add: run_defs)
  then have l: "link_authors small_store 1 [str_of ''Bartholomew Roberts''] (insert_book_author 1 1 ?s1) =
                  (Inl StoreError, ?s2)"
    by (simp add: prod_eq_iff)
  have bks: "books (committed (teardown (handler StoreError ?s2))) = [(1, sample_book)]"
    by (simp add: run_defs)
  have n3: "select_author_id (str_of ''Ann'') (authors (working ?s1)) \<noteq> None" by (simp add: run_defs)
  have f4: "fst (get_or_create_author small_store (str_of ''Ann'') ?s1) = Inr 1"
    by (simp add: run_defs)
  then have g3: "get_or_create_author small_store (str_of ''Ann'') ?s1 = (Inr 1, ?s3)"
    by (simp add: prod_eq_iff)
  from commits_on_one_connection[where st = small_store and r = ?r and s = fresh_session
      and s' = "snd (process_row small_store ?r fresh_session)"] p
  have c1: "committed (snd (process_row small_store ?r fresh_session)) =
            working (snd (process_row small_store ?r fresh_session))"
    by blast
  from commits_on_one_connection[where st = small_store and name = "str_of ''Ann''" and s = ?s
      and a = 1 and ?s1.0 = ?s1 and b = 1 and rest = "[str_of ''Bartholomew Roberts'']"
      and e = StoreError and ?s2.0 = ?s2] g n l
  have c4: "(1, str_of ''Ann'') \<in> set (authors (committed (teardown (handler StoreError ?s2))))"
    by blast
  from commits_on_one_connection[where st = small_store and name = "str_of ''Ann''" and s = ?s1
      and a = 1 and ?s1.0 = ?s3] g3 n3
  have c3: "committed ?s3 = committed ?s1" by blast
  from f1 c1 w n f2 f3 c4 bks n3 f4 c3 show ?thesis by (simp del: link_authors.simps)
qed

end
